theory Spec2Isabelle
  imports Complex_Main "HOL-Library.FSet" "HOL-Library.Multiset"
begin

section \<open>Boolean graph: nodes, gates and the object store\<close>

text \<open>
  The classes of \<^verbatim>\<open>boolean_graph.h\<close>. Objects live in a store and a
  \<^verbatim>\<open>shared_ptr\<close> or \<^verbatim>\<open>weak_ptr\<close> is the address of its pointee. There is one
  address space per class, as the pointer types of the source are typed
  (\<^verbatim>\<open>IGatePtr\<close>, \<^verbatim>\<open>VariablePtr\<close>, \<^verbatim>\<open>ConstantPtr\<close>); a \<^verbatim>\<open>NodePtr\<close> carries the
  class of its pointee. The C++ \<^verbatim>\<open>int\<close> of indices and visit times is modelled
  by \<open>int\<close>: the functions below only store, compare and negate these values.
\<close>

type_synonym addr = nat

datatype error =
  AssertionFailed    \<comment> \<open>an \<^verbatim>\<open>assert\<close> of the source does not hold\<close>
| EndIterator        \<comment> \<open>\<^verbatim>\<open>find(k)->second\<close> on a key that is not in the map\<close>
| NullPointer        \<comment> \<open>a pointer without a pointee in the store\<close>

datatype Operator =
  kAndGate | kOrGate | kAtleastGate | kXorGate | kNotGate | kNandGate | kNorGate | kNullGate

datatype State = kNormalState | kNullState | kUnityState

text \<open>\<^verbatim>\<open>int visits_[3]\<close> is the three fields \<open>visits_0\<close>, \<open>visits_1\<close>, \<open>visits_2\<close>.\<close>

record Node =
  index :: int
  visits_0 :: int
  visits_1 :: int
  visits_2 :: int
  parents :: "int \<rightharpoonup> addr"
  opti_value :: int

record Constant = Node +
  cstate :: bool

type_synonym Variable = Node

record IGate = Node +
  type :: Operator
  state :: State
  vote_number :: int
  mark :: bool
  min_time :: int
  max_time :: int
  module :: bool
  children :: "int fset"
  gate_children :: "int \<rightharpoonup> addr"
  variable_children :: "int \<rightharpoonup> addr"
  constant_children :: "int \<rightharpoonup> addr"
  num_failed_children :: int

datatype NodePtr = GatePtr addr | ConstantPtr addr | VariablePtr addr

record store =
  gate_at :: "addr \<rightharpoonup> IGate"
  variable_at :: "addr \<rightharpoonup> Variable"
  constant_at :: "addr \<rightharpoonup> Constant"

subsection \<open>Visit times of a node\<close>

text \<open>\<^verbatim>\<open>Node::Visit\<close>: the returned flag and the updated node.\<close>

definition Visit :: "'a Node_scheme \<Rightarrow> int \<Rightarrow> error + (bool \<times> 'a Node_scheme)" where
  "Visit n time =
     (if \<not> time > 0 then Inl AssertionFailed
      else if visits_0 n = 0 then Inr (False, n\<lparr>visits_0 := time\<rparr>)
      else if visits_1 n = 0 then Inr (False, n\<lparr>visits_1 := time\<rparr>)
      else Inr (True, n\<lparr>visits_2 := time\<rparr>))"

definition EnterTime :: "'a Node_scheme \<Rightarrow> int" where
  "EnterTime n = visits_0 n"

definition ExitTime :: "'a Node_scheme \<Rightarrow> int" where
  "ExitTime n = visits_1 n"

definition LastVisit :: "'a Node_scheme \<Rightarrow> int" where
  "LastVisit n = (if visits_2 n \<noteq> 0 then visits_2 n else visits_1 n)"

definition ClearVisits :: "'a Node_scheme \<Rightarrow> 'a Node_scheme" where
  "ClearVisits n = n\<lparr>visits_0 := 0, visits_1 := 0, visits_2 := 0\<rparr>"

text \<open>
  A sequence of calls \<^verbatim>\<open>Visit(t)\<close> on one node, in order: the flags the calls
  return and the node after the last call. The first failing call ends the run.
\<close>

fun Visit_calls :: "'a Node_scheme \<Rightarrow> int list \<Rightarrow> error + (bool list \<times> 'a Node_scheme)" where
  "Visit_calls n [] = Inr ([], n)"
| "Visit_calls n (t # ts) =
     (case Visit n t of
        Inl e \<Rightarrow> Inl e
      | Inr (r, n') \<Rightarrow>
          (case Visit_calls n' ts of
             Inl e \<Rightarrow> Inl e
           | Inr (rs, n'') \<Rightarrow> Inr (r # rs, n'')))"

subsection \<open>Children of a gate\<close>







subsection \<open>Well-formed stores\<close>

text \<open>The index and the parents of the node behind a pointer, when it has a pointee.\<close>

definition node_index :: "store \<Rightarrow> NodePtr \<Rightarrow> int option" where
  "node_index h p =
     (case p of
        GatePtr a \<Rightarrow> map_option index (gate_at h a)
      | ConstantPtr a \<Rightarrow> map_option index (constant_at h a)
      | VariablePtr a \<Rightarrow> map_option index (variable_at h a))"

definition node_parents :: "store \<Rightarrow> NodePtr \<Rightarrow> (int \<rightharpoonup> addr) option" where
  "node_parents h p =
     (case p of
        GatePtr a \<Rightarrow> map_option parents (gate_at h a)
      | ConstantPtr a \<Rightarrow> map_option parents (constant_at h a)
      | VariablePtr a \<Rightarrow> map_option parents (variable_at h a))"

text \<open>
  The pointer that \<^verbatim>\<open>EraseChild\<close> finds for a key: the three maps in the order
  in which it searches them.
\<close>

definition child_ptr :: "IGate \<Rightarrow> int \<Rightarrow> NodePtr option" where
  "child_ptr g k =
     (case gate_children g k of
        Some a \<Rightarrow> Some (GatePtr a)
      | None \<Rightarrow>
          (case constant_children g k of
             Some a \<Rightarrow> Some (ConstantPtr a)
           | None \<Rightarrow> map_option VariablePtr (variable_children g k)))"

text \<open>
  The representation of a gate's children, as \<^verbatim>\<open>EraseChild\<close> relies on it: the
  set \<^verbatim>\<open>children_\<close> holds exactly the keys of the three maps, a key is in one map
  only, no key is 0, a child is not there together with its complement, and
  the node stored under a key \<open>k\<close> has the index \<open>\<bar>k\<bar>\<close>.
\<close>

definition wf_gate :: "store \<Rightarrow> IGate \<Rightarrow> bool" where
  "wf_gate h g \<longleftrightarrow>
     (\<forall>k. k |\<in>| children g \<longleftrightarrow> child_ptr g k \<noteq> None) \<and>
     dom (gate_children g) \<inter> dom (constant_children g) = {} \<and>
     dom (gate_children g) \<inter> dom (variable_children g) = {} \<and>
     dom (constant_children g) \<inter> dom (variable_children g) = {} \<and>
     0 |\<notin>| children g \<and>
     (\<forall>k. k |\<in>| children g \<longrightarrow> - k |\<notin>| children g) \<and>
     (\<forall>k p. child_ptr g k = Some p \<longrightarrow> node_index h p = Some \<bar>k\<bar>)"

text \<open>
  A well-formed store: every gate is well represented, indices are positive and
  unique over all nodes, and a parent recorded under a key is a gate with that
  index.
\<close>

definition wf_store :: "store \<Rightarrow> bool" where
  "wf_store h \<longleftrightarrow>
     (\<forall>a g. gate_at h a = Some g \<longrightarrow> wf_gate h g) \<and>
     (\<forall>p i. node_index h p = Some i \<longrightarrow> 0 < i) \<and>
     (\<forall>p q i. node_index h p = Some i \<and> node_index h q = Some i \<longrightarrow> p = q) \<and>
     (\<forall>p ps k a. node_parents h p = Some ps \<and> ps k = Some a
        \<longrightarrow> (\<exists>g. gate_at h a = Some g \<and> index g = k))"






subsection \<open>Two small stores\<close>






subsection \<open>The graph and its table of basic events\<close>

record 'b BooleanGraph =
  top_event :: addr
  basic_events :: "'b list"
  coherent :: bool
  constants :: bool
  normal :: bool

text \<open>
  \<^verbatim>\<open>BooleanGraph::GetBasicEvent\<close>. The second assertion compares the index with
  \<^verbatim>\<open>basic_events_.size()\<close>; it is reached with a positive index only.
\<close>

definition GetBasicEvent :: "'b BooleanGraph \<Rightarrow> int \<Rightarrow> error + 'b" where
  "GetBasicEvent g idx =
     (if \<not> idx > 0 then Inl AssertionFailed
      else if \<not> idx \<le> int (length (basic_events g)) then Inl AssertionFailed
      else Inr (basic_events g ! nat (idx - 1)))"

text \<open>
  Modelled from the spec: the indexation of basic events by the constructor of
  \<^verbatim>\<open>BooleanGraph\<close> (\<^verbatim>\<open>boolean_graph.cc\<close> is not part of the sources at hand).
  \<^verbatim>\<open>Variable::ResetIndex\<close> sets the counter \<^verbatim>\<open>next_variable_\<close> to 1; every basic
  event met gets a new variable with the next index and is appended to
  \<^verbatim>\<open>basic_events_\<close>, so that indices are densely packed from 1. The result
  pairs every event with the index of its variable.
\<close>

fun IndexBasicEvents :: "int \<Rightarrow> 'b list \<Rightarrow> 'b list \<Rightarrow> (int \<times> 'b) list \<times> 'b list" where
  "IndexBasicEvents next_variable table [] = ([], table)"
| "IndexBasicEvents next_variable table (b # bs) =
     (case IndexBasicEvents (next_variable + 1) (table @ [b]) bs of
        (assigned, table') \<Rightarrow> ((next_variable, b) # assigned, table'))"

section \<open>MOCUS: generation of cut sets module by module\<close>

text \<open>
  \<^verbatim>\<open>mocus.cc\<close> is written against a later interface of the graph than the
  \<^verbatim>\<open>boolean_graph.h\<close> at hand: \<^verbatim>\<open>root()\<close> is \<^verbatim>\<open>top_event()\<close>, \<^verbatim>\<open>gate_args()\<close>
  is the map \<^verbatim>\<open>gate_children()\<close> and \<^verbatim>\<open>IsModule()\<close> reads the module flag.
\<close>

definition IsModule :: "IGate \<Rightarrow> bool" where
  "IsModule g = module g"

text \<open>
  Modelled from the spec: \<^verbatim>\<open>IGate::IsConstant\<close>, which \<^verbatim>\<open>mocus.cc\<close> calls and the
  header at hand does not declare. A gate is constant when its state is null or
  unity.
\<close>

definition IsConstant :: "IGate \<Rightarrow> bool" where
  "IsConstant g \<longleftrightarrow> state g \<noteq> kNormalState"

definition gate_args :: "IGate \<Rightarrow> int \<rightharpoonup> addr" where
  "gate_args g = gate_children g"

subsection \<open>The operations of the cut set container\<close>

text \<open>
  \<^verbatim>\<open>zbdd::CutSetContainer\<close> and \<^verbatim>\<open>Zbdd\<close> are not part of the sources at hand. The
  functions of \<^verbatim>\<open>mocus.cc\<close> take their operations as parameters: \<open>'c\<close> is the
  state of a container and \<open>'v\<close> a vertex that \<^verbatim>\<open>ConvertGate\<close>,
  \<^verbatim>\<open>ExtractIntermediateCutSets\<close> and \<^verbatim>\<open>ExpandGate\<close> return. An operation that
  changes the container returns the new state.
\<close>

record ('c, 'v) CutSetContainer_ops =
  NewCutSetContainer :: "nat \<Rightarrow> 'c"
  ConvertGate :: "'c \<Rightarrow> store \<Rightarrow> IGate \<Rightarrow> 'v"
  Merge :: "'c \<Rightarrow> 'v \<Rightarrow> 'c"
  GetNextGate :: "'c \<Rightarrow> int"
  ExtractIntermediateCutSets :: "'c \<Rightarrow> int \<Rightarrow> 'v \<times> 'c"
  ExpandGate :: "'c \<Rightarrow> 'v \<Rightarrow> 'v \<Rightarrow> 'v"
  Minimize :: "'c \<Rightarrow> 'c"
  EliminateComplements :: "'c \<Rightarrow> 'c"
  GatherModules :: "'c \<Rightarrow> int list"
  JoinModule :: "'c \<Rightarrow> int \<Rightarrow> 'c \<Rightarrow> 'c"
  EliminateConstantModules :: "'c \<Rightarrow> 'c"

record 'c Zbdd_ops =
  NewZbdd :: "store \<Rightarrow> addr \<Rightarrow> 'c"
  ZbddAnalyze :: "'c \<Rightarrow> 'c"
  ZbddProducts :: "'c \<Rightarrow> int list list"

text \<open>
  The calls on the container of one invocation of \<^verbatim>\<open>AnalyzeModule\<close>, in the
  order in which they are made. \<open>GetNextGateCall\<close> carries the returned index and
  \<open>JoinModuleCall\<close> the index of the module and the calls of the invocation that
  analyzed it.
\<close>

datatype call =
  ConvertGateCall int
| MergeCall
| GetNextGateCall int
| ExtractIntermediateCutSetsCall int
| ExpandGateCall
| MinimizeCall
| EliminateComplementsCall
| GatherModulesCall
| JoinModuleCall int "call list"
| EliminateConstantModulesCall

subsection \<open>Mocus::AnalyzeModule\<close>

text \<open>
  The order in which the two arguments of a call are evaluated. C++ leaves it
  to the compiler.
\<close>

datatype ArgumentOrder = LeftToRight | RightToLeft

text \<open>
  The two arguments of \<^verbatim>\<open>ExpandGate\<close>,
  \<^verbatim>\<open>container->ConvertGate(inter_gate)\<close> and
  \<^verbatim>\<open>container->ExtractIntermediateCutSets(next_gate)\<close>, evaluated in the given
  order: the vertex of the gate, the extracted cut sets, the container after
  the extraction and the two calls as they are made. Evaluated first,
  \<^verbatim>\<open>ConvertGate\<close> sees the container as it is before the extraction, and
  evaluated second as the extraction leaves it.
\<close>

definition argument_calls :: "ArgumentOrder \<Rightarrow> int \<Rightarrow> int \<Rightarrow> call list" where
  "argument_calls ord gate_index next_gate =
     (case ord of
        LeftToRight \<Rightarrow> [ConvertGateCall gate_index, ExtractIntermediateCutSetsCall next_gate]
      | RightToLeft \<Rightarrow> [ExtractIntermediateCutSetsCall next_gate, ConvertGateCall gate_index])"

definition expand_arguments ::
  "ArgumentOrder \<Rightarrow> ('c, 'v) CutSetContainer_ops \<Rightarrow> store \<Rightarrow> 'c \<Rightarrow> IGate \<Rightarrow> int
     \<Rightarrow> 'v \<times> 'v \<times> 'c \<times> call list" where
  "expand_arguments ord ops h container inter_gate next_gate =
     (case ord of
        LeftToRight \<Rightarrow>
          let converted = ConvertGate ops container h inter_gate;
              (intermediate, extracted) = ExtractIntermediateCutSets ops container next_gate
          in (converted, intermediate, extracted,
              argument_calls ord (index inter_gate) next_gate)
      | RightToLeft \<Rightarrow>
          let (intermediate, extracted) = ExtractIntermediateCutSets ops container next_gate;
              converted = ConvertGate ops extracted h inter_gate
          in (converted, intermediate, extracted,
              argument_calls ord (index inter_gate) next_gate))"

text \<open>
  The body of the loop \<^verbatim>\<open>while (next_gate)\<close>: the gate is looked up in the local
  map \<^verbatim>\<open>gates\<close> without a check, its gate arguments are inserted (an insertion
  keeps the entry of a key that is already there), and the cut sets with the
  gate are expanded and merged back.
\<close>

definition expand_step ::
  "ArgumentOrder \<Rightarrow> ('c, 'v) CutSetContainer_ops \<Rightarrow> store \<Rightarrow> (int \<rightharpoonup> addr) \<Rightarrow> 'c \<Rightarrow> int
     \<Rightarrow> error + ((int \<rightharpoonup> addr) \<times> 'c \<times> call list \<times> int)" where
  "expand_step ord ops h gates container next_gate =
     (case gates next_gate of
        None \<Rightarrow> Inl EndIterator
      | Some p \<Rightarrow>
          (case gate_at h p of
             None \<Rightarrow> Inl NullPointer
           | Some inter_gate \<Rightarrow>
               let gates' = gate_args inter_gate ++ gates;
                   (converted, intermediate, extracted, calls) =
                     expand_arguments ord ops h container inter_gate next_gate;
                   merged = Merge ops extracted (ExpandGate ops extracted converted intermediate);
                   next_gate' = GetNextGate ops merged
               in Inr (gates', merged,
                       calls @ [ExpandGateCall, MergeCall, GetNextGateCall next_gate'],
                       next_gate')))"

text \<open>
  The loop, with fuel: \<open>None\<close> is a loop that has not ended when the fuel is
  used up.
\<close>

fun expand_loop ::
  "nat \<Rightarrow> ArgumentOrder \<Rightarrow> ('c, 'v) CutSetContainer_ops \<Rightarrow> store \<Rightarrow> (int \<rightharpoonup> addr) \<Rightarrow> 'c \<Rightarrow> call list \<Rightarrow> int
     \<Rightarrow> (error + ((int \<rightharpoonup> addr) \<times> 'c \<times> call list)) option" where
  "expand_loop 0 ord ops h gates container trace next_gate = None"
| "expand_loop (Suc fuel) ord ops h gates container trace next_gate =
     (if next_gate = 0 then Some (Inr (gates, container, trace))
      else
        (case expand_step ord ops h gates container next_gate of
           Inl e \<Rightarrow> Some (Inl e)
         | Inr (gates', merged, calls, next_gate') \<Rightarrow>
             expand_loop fuel ord ops h gates' merged (trace @ calls) next_gate'))"

text \<open>
  The loop over \<^verbatim>\<open>container->GatherModules()\<close>: every module is looked up in
  \<^verbatim>\<open>gates\<close> without a check, analyzed by \<open>analyze\<close> and joined.
\<close>

fun join_modules ::
  "(addr \<Rightarrow> (error + ('c \<times> call list)) option) \<Rightarrow> ('c, 'v) CutSetContainer_ops
     \<Rightarrow> (int \<rightharpoonup> addr) \<Rightarrow> int list \<Rightarrow> 'c \<Rightarrow> call list \<Rightarrow> (error + ('c \<times> call list)) option" where
  "join_modules analyze ops gates [] container trace = Some (Inr (container, trace))"
| "join_modules analyze ops gates (m # ms) container trace =
     (case gates m of
        None \<Rightarrow> Some (Inl EndIterator)
      | Some p \<Rightarrow>
          (case analyze p of
             None \<Rightarrow> None
           | Some (Inl e) \<Rightarrow> Some (Inl e)
           | Some (Inr (sub, sub_trace)) \<Rightarrow>
               join_modules analyze ops gates ms (JoinModule ops container m sub)
                 (trace @ [JoinModuleCall m sub_trace])))"

text \<open>What \<^verbatim>\<open>AnalyzeModule\<close> does after the loop.\<close>

definition finish_module ::
  "(addr \<Rightarrow> (error + ('c \<times> call list)) option) \<Rightarrow> ('c, 'v) CutSetContainer_ops \<Rightarrow> bool
     \<Rightarrow> (int \<rightharpoonup> addr) \<Rightarrow> 'c \<Rightarrow> call list \<Rightarrow> (error + ('c \<times> call list)) option" where
  "finish_module analyze ops is_coherent gates container trace =
     (let minimized = Minimize ops container;
          trace1 = trace @ [MinimizeCall];
          (container2, trace2) =
            (if \<not> is_coherent
             then (Minimize ops (EliminateComplements ops minimized),
                   trace1 @ [EliminateComplementsCall, MinimizeCall])
             else (minimized, trace1));
          modules = GatherModules ops container2
      in case join_modules analyze ops gates modules container2 (trace2 @ [GatherModulesCall]) of
           None \<Rightarrow> None
         | Some (Inl e) \<Rightarrow> Some (Inl e)
         | Some (Inr (joined, trace3)) \<Rightarrow>
             Some (Inr (Minimize ops (EliminateConstantModules ops joined),
                        trace3 @ [EliminateConstantModulesCall, MinimizeCall])))"

text \<open>
  \<^verbatim>\<open>Mocus::AnalyzeModule\<close>. The fuel bounds the depth of the recursion into
  modules and the number of rounds of each loop.
\<close>

primrec AnalyzeModule ::
  "nat \<Rightarrow> ArgumentOrder \<Rightarrow> ('c, 'v) CutSetContainer_ops \<Rightarrow> store \<Rightarrow> 'b BooleanGraph \<Rightarrow> addr
     \<Rightarrow> (error + ('c \<times> call list)) option" where
  "AnalyzeModule 0 = (\<lambda>ord ops h graph p. None)"
| "AnalyzeModule (Suc fuel) = (\<lambda>ord ops h graph p.
     case gate_at h p of
       None \<Rightarrow> Some (Inl NullPointer)
     | Some gate \<Rightarrow>
         if \<not> IsModule gate then Some (Inl AssertionFailed)
         else
           let gates = gate_args gate;
               container = NewCutSetContainer ops (length (basic_events graph));
               merged = Merge ops container (ConvertGate ops container h gate);
               next_gate = GetNextGate ops merged
           in case expand_loop (Suc fuel) ord ops h gates merged
                     [ConvertGateCall (index gate), MergeCall, GetNextGateCall next_gate] next_gate of
                None \<Rightarrow> None
              | Some (Inl e) \<Rightarrow> Some (Inl e)
              | Some (Inr (gates', expanded, trace)) \<Rightarrow>
                  finish_module (AnalyzeModule fuel ord ops h graph) ops (coherent graph)
                    gates' expanded trace)"

subsection \<open>Mocus: constructor, Analyze and products\<close>

record 'c Mocus =
  constant_graph :: bool
  zbdd :: "'c option"

definition NewMocus :: "'c Zbdd_ops \<Rightarrow> store \<Rightarrow> 'b BooleanGraph \<Rightarrow> error + 'c Mocus" where
  "NewMocus zops h fault_tree =
     (case gate_at h (top_event fault_tree) of
        None \<Rightarrow> Inl NullPointer
      | Some top_gate \<Rightarrow>
          if IsConstant top_gate \<or> type top_gate = kNullGate
          then Inr \<lparr>constant_graph = True,
                    zbdd = Some (ZbddAnalyze zops (NewZbdd zops h (top_event fault_tree)))\<rparr>
          else Inr \<lparr>constant_graph = False, zbdd = None\<rparr>)"

text \<open>\<^verbatim>\<open>Mocus::Analyze\<close>, with the calls made on the container of the top module.\<close>

definition Analyze ::
  "nat \<Rightarrow> ArgumentOrder \<Rightarrow> 'c Zbdd_ops \<Rightarrow> ('c, 'v) CutSetContainer_ops \<Rightarrow> store \<Rightarrow> 'b BooleanGraph \<Rightarrow> 'c Mocus
     \<Rightarrow> (error + ('c Mocus \<times> call list)) option" where
  "Analyze fuel ord zops ops h graph m =
     (if constant_graph m then Some (Inr (m, []))
      else
        (case AnalyzeModule fuel ord ops h graph (top_event graph) of
           None \<Rightarrow> None
         | Some (Inl e) \<Rightarrow> Some (Inl e)
         | Some (Inr (container, trace)) \<Rightarrow>
             Some (Inr (m\<lparr>zbdd := Some (ZbddAnalyze zops container)\<rparr>, trace))))"

definition products :: "'c Zbdd_ops \<Rightarrow> 'c Mocus \<Rightarrow> error + int list list" where
  "products zops m =
     (case zbdd m of
        None \<Rightarrow> Inl AssertionFailed
      | Some z \<Rightarrow> Inr (ZbddProducts zops z))"

text \<open>The calls of the expansion loop.\<close>

fun expansion_call :: "call \<Rightarrow> bool" where
  "expansion_call (ConvertGateCall i) = True"
| "expansion_call MergeCall = True"
| "expansion_call (GetNextGateCall g) = (g \<noteq> 0)"
| "expansion_call (ExtractIntermediateCutSetsCall g) = True"
| "expansion_call ExpandGateCall = True"
| "expansion_call c = False"

text \<open>
  The container after the loop, in the words of the spec: \<^verbatim>\<open>Minimize\<close>, and
  \<^verbatim>\<open>EliminateComplements\<close> with a second \<^verbatim>\<open>Minimize\<close> exactly when the graph is
  not coherent; and the calls that this makes.
\<close>

definition minimized_container :: "('c, 'v) CutSetContainer_ops \<Rightarrow> bool \<Rightarrow> 'c \<Rightarrow> 'c" where
  "minimized_container ops is_coherent c =
     (if is_coherent then Minimize ops c
      else Minimize ops (EliminateComplements ops (Minimize ops c)))"

definition minimize_calls :: "bool \<Rightarrow> call list" where
  "minimize_calls is_coherent =
     (if is_coherent then [MinimizeCall]
      else [MinimizeCall, EliminateComplementsCall, MinimizeCall])"

text \<open>
  The end of \<^verbatim>\<open>AnalyzeModule\<close> in the words of the spec, on the outcome of joining
  the modules: \<^verbatim>\<open>EliminateConstantModules\<close> and a final \<^verbatim>\<open>Minimize\<close> of the joined
  container; an error or a run without end stays what it is.
\<close>

definition final_container ::
  "('c, 'v) CutSetContainer_ops \<Rightarrow> (error + ('c \<times> call list)) option
     \<Rightarrow> (error + ('c \<times> call list)) option" where
  "final_container ops joined =
     map_option (map_sum id (\<lambda>(container, trace).
         (Minimize ops (EliminateConstantModules ops container),
          trace @ [EliminateConstantModulesCall, MinimizeCall])))
       joined"

subsection \<open>A container of cut sets as lists\<close>

text \<open>
  Modelled from the spec: the operations of \<^verbatim>\<open>zbdd::CutSetContainer\<close>, which
  \<^verbatim>\<open>mocus.cc\<close> calls and whose source is not at hand. The container holds a
  family of cut sets; a cut set is the set of the literals of a list. The gate
  of a literal is known by its index, which lies above the number of basic
  events given to the constructor, and the container knows which of the gate
  literals it met are modules.
  \<^item> \<open>SpecConvertGate\<close>: the family of a gate over the signed indices of its
    direct children, one cut set with all children for an AND gate and one cut
    set per child for an OR gate (the spec converts no other gate), together
    with the gate arguments that are modules.
  \<^item> \<open>SpecGetNextGate\<close>: a gate literal of the container that is not a module,
    or 0 when there is none. The spec does not say which; this is the first in
    the order of the family.
  \<^item> \<open>SpecExtractIntermediateCutSets\<close>: takes the cut sets with the literal
    out of the container and returns them without the literal.
  \<^item> \<open>SpecExpandGate\<close>: every extracted cut set extended by every cut set of
    the gate.
  \<^item> \<open>SpecMinimize\<close>: removes the cut sets that include another one properly.
  \<^item> \<open>SpecEliminateComplements\<close>: discards a cut set with a literal and its
    complement and drops the complemented literals of the others.
  \<^item> \<open>SpecGatherModules\<close>: the module literals of the container.
  \<^item> \<open>SpecJoinModule\<close>: every cut set with the module literal extended by
    every cut set of the module, in place of the literal.
  \<^item> \<open>SpecEliminateConstantModules\<close>: leaves the family as it is, since joining
    a module without cut sets or with the empty cut set has already removed the
    cut sets, or the literal.
\<close>

record SpecContainer =
  family :: "int list list"
  modules_known :: "int list"
  gate_bound :: int

type_synonym SpecVertex = "int list list \<times> int list"

definition SpecConvertGate :: "SpecContainer \<Rightarrow> store \<Rightarrow> IGate \<Rightarrow> SpecVertex" where
  "SpecConvertGate c h gate =
     (let literals = sorted_list_of_fset (children gate) in
      ((case type gate of
          kAndGate \<Rightarrow> [literals]
        | kOrGate \<Rightarrow> map (\<lambda>l. [l]) literals
        | _ \<Rightarrow> []),
       filter (\<lambda>k. case gate_args gate k of
                      None \<Rightarrow> False
                    | Some p \<Rightarrow> (case gate_at h p of None \<Rightarrow> False | Some g \<Rightarrow> IsModule g))
         literals))"

definition SpecMerge :: "SpecContainer \<Rightarrow> SpecVertex \<Rightarrow> SpecContainer" where
  "SpecMerge c v = c\<lparr>family := family c @ fst v, modules_known := modules_known c @ snd v\<rparr>"

definition placeholders :: "SpecContainer \<Rightarrow> int list" where
  "placeholders c =
     remdups (filter (\<lambda>l. gate_bound c < l \<and> l \<notin> set (modules_known c)) (concat (family c)))"

definition SpecGetNextGate :: "SpecContainer \<Rightarrow> int" where
  "SpecGetNextGate c = (case placeholders c of [] \<Rightarrow> 0 | l # ls \<Rightarrow> l)"

definition SpecExtractIntermediateCutSets :: "SpecContainer \<Rightarrow> int \<Rightarrow> SpecVertex \<times> SpecContainer" where
  "SpecExtractIntermediateCutSets c g =
     ((map (removeAll g) (filter (\<lambda>cs. g \<in> set cs) (family c)), []),
      c\<lparr>family := filter (\<lambda>cs. g \<notin> set cs) (family c)\<rparr>)"

definition SpecExpandGate :: "SpecContainer \<Rightarrow> SpecVertex \<Rightarrow> SpecVertex \<Rightarrow> SpecVertex" where
  "SpecExpandGate c gate_sets cut_sets =
     (concat (map (\<lambda>cs. map (\<lambda>gs. gs @ cs) (fst gate_sets)) (fst cut_sets)),
      snd gate_sets @ snd cut_sets)"

definition SpecMinimize :: "SpecContainer \<Rightarrow> SpecContainer" where
  "SpecMinimize c =
     c\<lparr>family := filter (\<lambda>cs. \<not> (\<exists>cs' \<in> set (family c). set cs' \<subset> set cs)) (family c)\<rparr>"

definition SpecEliminateComplements :: "SpecContainer \<Rightarrow> SpecContainer" where
  "SpecEliminateComplements c =
     c\<lparr>family := map (filter (\<lambda>l. 0 < l))
                    (filter (\<lambda>cs. \<not> (\<exists>l \<in> set cs. - l \<in> set cs)) (family c))\<rparr>"

definition SpecGatherModules :: "SpecContainer \<Rightarrow> int list" where
  "SpecGatherModules c =
     remdups (filter (\<lambda>l. l \<in> set (modules_known c)) (concat (family c)))"

definition SpecJoinModule :: "SpecContainer \<Rightarrow> int \<Rightarrow> SpecContainer \<Rightarrow> SpecContainer" where
  "SpecJoinModule c m sub =
     c\<lparr>family := filter (\<lambda>cs. m \<notin> set cs) (family c)
          @ concat (map (\<lambda>cs. map (\<lambda>s. removeAll m cs @ s) (family sub))
                      (filter (\<lambda>cs. m \<in> set cs) (family c)))\<rparr>"

definition SpecEliminateConstantModules :: "SpecContainer \<Rightarrow> SpecContainer" where
  "SpecEliminateConstantModules c = c"

definition spec_ops :: "(SpecContainer, SpecVertex) CutSetContainer_ops" where
  "spec_ops = \<lparr>
     NewCutSetContainer = (\<lambda>n. \<lparr>family = [], modules_known = [], gate_bound = int n\<rparr>),
     ConvertGate = SpecConvertGate,
     Merge = SpecMerge,
     GetNextGate = SpecGetNextGate,
     ExtractIntermediateCutSets = SpecExtractIntermediateCutSets,
     ExpandGate = SpecExpandGate,
     Minimize = SpecMinimize,
     EliminateComplements = SpecEliminateComplements,
     GatherModules = SpecGatherModules,
     JoinModule = SpecJoinModule,
     EliminateConstantModules = SpecEliminateConstantModules\<rparr>"

definition expanded_container :: "SpecContainer \<Rightarrow> store \<Rightarrow> IGate \<Rightarrow> int \<Rightarrow> SpecContainer" where
  "expanded_container c h inter_gate g =
     SpecMerge (snd (SpecExtractIntermediateCutSets c g))
       (SpecExpandGate (snd (SpecExtractIntermediateCutSets c g)) (SpecConvertGate c h inter_gate)
          (fst (SpecExtractIntermediateCutSets c g)))"

text \<open>
  Modelled from the spec: the \<^verbatim>\<open>Zbdd\<close> that the constructor of \<^verbatim>\<open>Mocus\<close> builds from
  a graph with a constant top gate: no cut set for a null gate, the empty cut
  set for a unity gate, and the children of a pass-through gate otherwise.
\<close>

definition constant_zbdd_ops :: "SpecContainer Zbdd_ops" where
  "constant_zbdd_ops = \<lparr>
     NewZbdd = (\<lambda>h p. \<lparr>family =
                  (case gate_at h p of
                     None \<Rightarrow> []
                   | Some g \<Rightarrow>
                       if state g = kNullState then []
                       else if state g = kUnityState then [[]]
                       else map (\<lambda>l. [l]) (sorted_list_of_fset (children g))),
                modules_known = [], gate_bound = 0\<rparr>),
     ZbddAnalyze = SpecMinimize,
     ZbddProducts = family\<rparr>"

subsection \<open>Graphs in negation normal form\<close>

text \<open>
  The indices of a graph in negation normal form over \<open>bound\<close> basic events:
  a child of a gate is a gate exactly when its literal lies above \<open>bound\<close>, so
  that gates are never complemented and variables have the indices up to
  \<open>bound\<close>.
\<close>

definition nnf_indexed :: "store \<Rightarrow> int \<Rightarrow> bool" where
  "nnf_indexed h bound \<longleftrightarrow>
     0 \<le> bound \<and>
     (\<forall>p g k. gate_at h p = Some g \<longrightarrow> k |\<in>| children g \<longrightarrow>
        (bound < k) = (gate_children g k \<noteq> None))"

text \<open>
  An acyclic graph: a rank on the indices of gates that falls from every gate to
  its gate arguments.
\<close>

definition ranked :: "store \<Rightarrow> (int \<Rightarrow> nat) \<Rightarrow> bool" where
  "ranked h rank \<longleftrightarrow>
     (\<forall>p g k. gate_at h p = Some g \<longrightarrow> gate_children g k \<noteq> None \<longrightarrow> rank k < rank (index g))"

text \<open>
  What holds of the local map \<^verbatim>\<open>gates\<close> and the container between two rounds of
  the loop: every gate literal of the container is a key of \<^verbatim>\<open>gates\<close>, a key of
  \<^verbatim>\<open>gates\<close> is the index of the gate stored under it, and a literal known as
  a module is the index of a gate with the module flag.
\<close>

definition expansion_inv :: "store \<Rightarrow> int \<Rightarrow> (int \<rightharpoonup> addr) \<Rightarrow> SpecContainer \<Rightarrow> bool" where
  "expansion_inv h bound gates c \<longleftrightarrow>
     gate_bound c = bound \<and>
     (\<forall>cs \<in> set (family c). \<forall>l \<in> set cs. bound < l \<longrightarrow> gates l \<noteq> None) \<and>
     (\<forall>k p. gates k = Some p \<longrightarrow> (\<exists>g. gate_at h p = Some g \<and> index g = k)) \<and>
     (\<forall>m \<in> set (modules_known c).
        bound < m \<and> (\<exists>p g. gate_at h p = Some g \<and> index g = m \<and> module g))"

text \<open>A result that is not an error: no result yet, or a value.\<close>

definition no_error :: "(error + 'a) option \<Rightarrow> bool" where
  "no_error r \<longleftrightarrow> (case r of Some (Inl e) \<Rightarrow> False | _ \<Rightarrow> True)"

subsection \<open>Two small graphs\<close>

text \<open>
  A module \<open>10 = AND(1, 11, 14)\<close> over five basic events with \<open>11 = OR(12, 13)\<close>,
  \<open>12 = AND(1, 2)\<close>, \<open>13 = AND(1, 3)\<close> and the module \<open>14 = OR(4, 5)\<close>; and a
  graph whose top gate is in the null state.
\<close>

definition mocus_gate :: "int \<Rightarrow> Operator \<Rightarrow> bool \<Rightarrow> int fset \<Rightarrow> (int \<rightharpoonup> addr) \<Rightarrow> (int \<rightharpoonup> addr)
    \<Rightarrow> (int \<rightharpoonup> addr) \<Rightarrow> IGate" where
  "mocus_gate i t m cs gs vs ps = \<lparr>index = i, visits_0 = 0, visits_1 = 0, visits_2 = 0, parents = ps,
     opti_value = 0, type = t, state = kNormalState, vote_number = 0, mark = False,
     min_time = 0, max_time = 0, module = m, children = cs,
     gate_children = gs, variable_children = vs,
     constant_children = Map.empty, num_failed_children = 0\<rparr>"

definition mocus_variable :: "int \<Rightarrow> (int \<rightharpoonup> addr) \<Rightarrow> Variable" where
  "mocus_variable i ps = \<lparr>index = i, visits_0 = 0, visits_1 = 0, visits_2 = 0,
     parents = ps, opti_value = 0\<rparr>"

definition mocus_store :: store where
  "mocus_store = \<lparr>
     gate_at = [0 \<mapsto> mocus_gate 10 kAndGate True {|1, 11, 14|} [11 \<mapsto> 1, 14 \<mapsto> 4] [1 \<mapsto> 0] Map.empty,
                1 \<mapsto> mocus_gate 11 kOrGate False {|12, 13|} [12 \<mapsto> 2, 13 \<mapsto> 3] Map.empty [10 \<mapsto> 0],
                2 \<mapsto> mocus_gate 12 kAndGate False {|1, 2|} Map.empty [1 \<mapsto> 0, 2 \<mapsto> 1] [11 \<mapsto> 1],
                3 \<mapsto> mocus_gate 13 kAndGate False {|1, 3|} Map.empty [1 \<mapsto> 0, 3 \<mapsto> 2] [11 \<mapsto> 1],
                4 \<mapsto> mocus_gate 14 kOrGate True {|4, 5|} Map.empty [4 \<mapsto> 3, 5 \<mapsto> 4] [10 \<mapsto> 0]],
     variable_at = [0 \<mapsto> mocus_variable 1 [10 \<mapsto> 0, 12 \<mapsto> 2, 13 \<mapsto> 3],
                    1 \<mapsto> mocus_variable 2 [12 \<mapsto> 2],
                    2 \<mapsto> mocus_variable 3 [13 \<mapsto> 3],
                    3 \<mapsto> mocus_variable 4 [14 \<mapsto> 4],
                    4 \<mapsto> mocus_variable 5 [14 \<mapsto> 4]],
     constant_at = Map.empty\<rparr>"

definition mocus_graph :: "string BooleanGraph" where
  "mocus_graph = \<lparr>top_event = 0, basic_events = [''a'', ''b'', ''c'', ''d'', ''e''],
     coherent = True, constants = False, normal = True\<rparr>"

definition mocus_rank :: "int \<Rightarrow> nat" where
  "mocus_rank i = (if i = 10 then 3 else if i = 11 then 2 else if 12 \<le> i \<and> i \<le> 14 then 1 else 0)"

definition mocus_top :: IGate where
  "mocus_top = mocus_gate 10 kAndGate True {|1, 11, 14|} [11 \<mapsto> 1, 14 \<mapsto> 4] [1 \<mapsto> 0] Map.empty"

definition mocus_seed :: SpecContainer where
  "mocus_seed =
     Merge spec_ops (NewCutSetContainer spec_ops 5)
       (ConvertGate spec_ops (NewCutSetContainer spec_ops 5) mocus_store mocus_top)"

definition null_store :: store where
  "null_store = \<lparr>gate_at = [0 \<mapsto> (mocus_gate 10 kAndGate False {||} Map.empty Map.empty Map.empty)
                              \<lparr>state := kNullState\<rparr>],
     variable_at = Map.empty, constant_at = Map.empty\<rparr>"

section \<open>Approximations of the total probability\<close>

text \<open>
  Modelled from the spec: \<^verbatim>\<open>ProbabilityAnalysis::ProbAnd\<close>, \<^verbatim>\<open>ProbRareEvent\<close> and
  \<^verbatim>\<open>ProbMcub\<close>, which \<^verbatim>\<open>probability_analysis.h\<close> declares and whose bodies are not
  at hand. A cut set is a list of unique positive or negative literals
  (\<^verbatim>\<open>CutSet\<close> in the header); \<open>var_probs\<close> gives the probability of every basic
  event by its index, and the probability of a complemented member is that of
  the complement, as in the scenario \<open>A \<and> \<not>B\<close> of the spec. The three functions
  run over their argument with an accumulator: the product of the members'
  probabilities, the sum of the cut sets' probabilities, and one minus the
  product of the complements of the cut sets' probabilities. The \<^verbatim>\<open>double\<close> of the
  declarations is modelled by the real numbers, without rounding.
\<close>

definition member_prob :: "(int \<Rightarrow> real) \<Rightarrow> int \<Rightarrow> real" where
  "member_prob var_probs member =
     (if member > 0 then var_probs member else 1 - var_probs (- member))"

definition ProbAnd :: "(int \<Rightarrow> real) \<Rightarrow> int list \<Rightarrow> real" where
  "ProbAnd var_probs cut_set = fold (\<lambda>member p. p * member_prob var_probs member) cut_set 1"

definition ProbRareEvent :: "(int \<Rightarrow> real) \<Rightarrow> int list list \<Rightarrow> real" where
  "ProbRareEvent var_probs min_cut_sets =
     fold (\<lambda>cut_set s. s + ProbAnd var_probs cut_set) min_cut_sets 0"

definition ProbMcub :: "(int \<Rightarrow> real) \<Rightarrow> int list list \<Rightarrow> real" where
  "ProbMcub var_probs min_cut_sets =
     1 - fold (\<lambda>cut_set m. m * (1 - ProbAnd var_probs cut_set)) min_cut_sets 1"

section \<open>Visit times\<close>

lemma Visit_calls_revisited:
  assumes "visits_0 n \<noteq> 0" and "visits_1 n \<noteq> 0" and "\<forall>t\<in>set ts. 0 < t"
  shows "\<exists>n'. Visit_calls n ts = Inr (replicate (length ts) True, n')
           \<and> visits_0 n' = visits_0 n \<and> visits_1 n' = visits_1 n
           \<and> visits_2 n' = (if ts = [] then visits_2 n else last ts)"
  using assms
proof (induction ts arbitrary: n)
  case Nil
  then show ?case by simp
next
  case (Cons t ts)
  let ?m = "n\<lparr>visits_2 := t\<rparr>"
  from Cons.prems have step: "Visit n t = Inr (True, ?m)"
    by (simp add: Visit_def)
  from Cons.prems have "visits_0 ?m \<noteq> 0" "visits_1 ?m \<noteq> 0" "\<forall>t\<in>set ts. 0 < t"
    by simp_all
  from Cons.IH [OF this] obtain n' where
    "Visit_calls ?m ts = Inr (replicate (length ts) True, n')"
    "visits_0 n' = visits_0 ?m" "visits_1 n' = visits_1 ?m"
    "visits_2 n' = (if ts = [] then visits_2 ?m else last ts)"
    by blast
  with step show ?case by simp
qed

lemma upt_shift: "[0..<Suc n] = 0 # map Suc [0..<n]"
  by (simp add: upt_conv_Cons map_Suc_upt del: upt_Suc)

lemma Visit_flags:
  "map (\<lambda>k. 2 \<le> k) [0..<Suc (Suc m)] = False # False # replicate m True"
proof -
  have "[0..<Suc (Suc m)] = 0 # 1 # map (\<lambda>k. Suc (Suc k)) [0..<m]"
    by (simp add: upt_shift comp_def del: upt_Suc)
  then show ?thesis
    by (simp add: comp_def map_replicate_const del: upt_Suc)
qed

text \<open>
  C8. On a node without visit times (all three are zero, as after construction or
  \<^verbatim>\<open>ClearVisits\<close>), a sequence of calls \<^verbatim>\<open>Visit(t)\<close> with positive times all
  succeed; the first call returns false and records its time as the enter
  time, the second returns false and records its time as the exit time, and
  every later call returns true and records its time as the last visit.
\<close>

theorem Visit_sequence:
  assumes "visits_0 n = 0" and "visits_1 n = 0" and "visits_2 n = 0"
    and "\<forall>t\<in>set ts. 0 < t"
  shows "\<exists>n'. Visit_calls n ts = Inr (map (\<lambda>k. 2 \<le> k) [0..<length ts], n')
           \<and> EnterTime n' = (if 0 < length ts then ts ! 0 else 0)
           \<and> ExitTime n' = (if 1 < length ts then ts ! 1 else 0)
           \<and> visits_2 n' = (if 2 < length ts then last ts else 0)"
proof (cases ts)
  case Nil
  with assms show ?thesis by (simp add: EnterTime_def ExitTime_def)
next
  case ts1: (Cons t1 ts')
  let ?n1 = "n\<lparr>visits_0 := t1\<rparr>"
  from assms ts1 have t1: "0 < t1" by simp
  with assms have step1: "Visit n t1 = Inr (False, ?n1)"
    by (simp add: Visit_def)
  show ?thesis
  proof (cases ts')
    case Nil
    with ts1 step1 assms show ?thesis
      by (simp add: EnterTime_def ExitTime_def)
  next
    case ts2: (Cons t2 ts'')
    let ?n2 = "?n1\<lparr>visits_1 := t2\<rparr>"
    from assms ts1 ts2 have t2: "0 < t2" by simp
    with t1 assms have step2: "Visit ?n1 t2 = Inr (False, ?n2)"
      by (simp add: Visit_def)
    from assms ts1 ts2 t1 t2
    have "visits_0 ?n2 \<noteq> 0" "visits_1 ?n2 \<noteq> 0" "\<forall>t\<in>set ts''. 0 < t"
      by simp_all
    from Visit_calls_revisited [OF this] obtain n' where rest:
      "Visit_calls ?n2 ts'' = Inr (replicate (length ts'') True, n')"
      "visits_0 n' = visits_0 ?n2" "visits_1 n' = visits_1 ?n2"
      "visits_2 n' = (if ts'' = [] then visits_2 ?n2 else last ts'')"
      by blast
    have flags: "map (\<lambda>k. 2 \<le> k) [0..<length ts] = False # False # replicate (length ts'') True"
    proof -
      have "length ts = Suc (Suc (length ts''))"
        by (simp add: ts1 ts2)
      then show ?thesis
        by (simp only: Visit_flags)
    qed
    from rest step1 step2 assms show ?thesis
      unfolding flags
      by (simp add: ts1 ts2 EnterTime_def ExitTime_def)
  qed
qed

theorem Visit_sequence_witness:
  "Visit_calls \<lparr>index = 7, visits_0 = 0, visits_1 = 0, visits_2 = 0,
                 parents = Map.empty, opti_value = 0\<rparr> [3, 5, 8, 9]
     = Inr ([False, False, True, True],
            \<lparr>index = 7, visits_0 = 3, visits_1 = 5, visits_2 = 9,
             parents = Map.empty, opti_value = 0\<rparr>)"
  using Visit_sequence [of "\<lparr>index = 7, visits_0 = 0, visits_1 = 0, visits_2 = 0,
                 parents = Map.empty, opti_value = 0\<rparr>" "[3, 5, 8, 9]"]
  by (simp add: Visit_def)

section \<open>Basic events by index\<close>

lemma IndexBasicEvents_table:
  "snd (IndexBasicEvents k table bs) = table @ bs"
proof (induction bs arbitrary: k table)
  case Nil
  then show ?case by simp
next
  case (Cons b bs)
  from Cons.IH [of "k + 1" "table @ [b]"] show ?case
    by (cases "IndexBasicEvents (k + 1) (table @ [b]) bs") simp
qed

lemma IndexBasicEvents_assigned:
  "fst (IndexBasicEvents k table bs) = zip (map (\<lambda>j. k + int j) [0..<length bs]) bs"
proof (induction bs arbitrary: k table)
  case Nil
  then show ?case by simp
next
  case (Cons b bs)
  have "fst (IndexBasicEvents k table (b # bs))
      = (k, b) # fst (IndexBasicEvents (k + 1) (table @ [b]) bs)"
    by (simp split: prod.splits)
  also have "\<dots> = (k, b) # zip (map (\<lambda>j. k + 1 + int j) [0..<length bs]) bs"
    by (simp only: Cons.IH)
  also have "\<dots> = zip (map (\<lambda>j. k + int j) [0..<length (b # bs)]) (b # bs)"
    by (simp add: upt_shift comp_def algebra_simps del: upt_Suc)
  finally show ?case .
qed

text \<open>
  C9. In a graph whose table of basic events was filled by the indexation from
  index 1, \<^verbatim>\<open>GetBasicEvent(i)\<close> with \<open>1 \<le> i \<le> n\<close> returns the entry at position
  \<open>i - 1\<close> of \<^verbatim>\<open>basic_events_\<close>, and this is the basic event whose variable
  received the index \<open>i\<close>.
\<close>

theorem GetBasicEvent_index:
  assumes "IndexBasicEvents 1 [] bs = (assigned, basic_events g)"
    and "1 \<le> i" and "i \<le> int (length (basic_events g))"
  shows "GetBasicEvent g i = Inr (basic_events g ! nat (i - 1))
       \<and> (i, basic_events g ! nat (i - 1)) \<in> set assigned
       \<and> (\<forall>b. (i, b) \<in> set assigned \<longrightarrow> GetBasicEvent g i = Inr b)"
proof -
  from assms(1) have tab: "basic_events g = bs"
    using IndexBasicEvents_table [of 1 "[]" bs] by simp
  from assms(1) have asg: "assigned = zip (map (\<lambda>j. 1 + int j) [0..<length bs]) bs"
    using IndexBasicEvents_assigned [of 1 "[]" bs] by simp
  from assms(2,3) have get: "GetBasicEvent g i = Inr (basic_events g ! nat (i - 1))"
    by (simp add: GetBasicEvent_def)
  from assms(2,3) tab have lt: "nat (i - 1) < length bs" by simp
  have "(i, bs ! nat (i - 1)) \<in> set assigned"
  proof -
    from lt assms(2) have "zip (map (\<lambda>j. 1 + int j) [0..<length bs]) bs ! nat (i - 1)
        = (i, bs ! nat (i - 1))"
      by simp
    moreover from lt have "nat (i - 1) < length (zip (map (\<lambda>j. 1 + int j) [0..<length bs]) bs)"
      by simp
    ultimately show ?thesis
      unfolding asg by (metis nth_mem)
  qed
  moreover have "b = bs ! nat (i - 1)" if "(i, b) \<in> set assigned" for b
  proof -
    from that obtain j where j: "j < length bs" "i = 1 + int j" "b = bs ! j"
      unfolding asg by (auto simp: set_zip)
    then show ?thesis by simp
  qed
  ultimately show ?thesis
    using get tab by blast
qed

theorem GetBasicEvent_index_witness:
  "GetBasicEvent \<lparr>top_event = 0, basic_events = [''pump'', ''valve'', ''relay''],
       coherent = True, constants = False, normal = True\<rparr> 2 = Inr ''valve''
   \<and> IndexBasicEvents 1 [] [''pump'', ''valve'', ''relay'']
       = ([(1, ''pump''), (2, ''valve''), (3, ''relay'')], [''pump'', ''valve'', ''relay''])"
  using GetBasicEvent_index [of "[''pump'', ''valve'', ''relay'']"
      "[(1, ''pump''), (2, ''valve''), (3, ''relay'')]"
      "\<lparr>top_event = 0, basic_events = [''pump'', ''valve'', ''relay''],
       coherent = True, constants = False, normal = True\<rparr>" 2]
  by simp

section \<open>Erasing children keeps the store well formed\<close>




















section \<open>Children and parents\<close>













section \<open>Gates in a constant state\<close>



section \<open>The calls of AnalyzeModule\<close>

lemma expand_loop_log:
  assumes "expand_loop fuel ord ops h gates container (pre @ [GetNextGateCall next_gate]) next_gate
             = Some (Inr (gates', container', trace'))"
    and "list_all expansion_call pre"
  shows "\<exists>pre'. trace' = pre' @ [GetNextGateCall 0] \<and> list_all expansion_call pre'"
  using assms
proof (induction fuel arbitrary: gates container pre next_gate)
  case 0
  then show ?case by simp
next
  case (Suc fuel)
  show ?case
  proof (cases "next_gate = 0")
    case True
    with Suc.prems show ?thesis by auto
  next
    case False
    from Suc.prems(1) False obtain gates1 merged calls next1 where
      st: "expand_step ord ops h gates container next_gate = Inr (gates1, merged, calls, next1)"
      by (auto split: sum.splits)
    then obtain args where calls: "calls = args @ [ExpandGateCall, MergeCall, GetNextGateCall next1]"
      and args: "list_all expansion_call args"
      by (cases ord)
         (auto simp: expand_step_def expand_arguments_def argument_calls_def Let_def
            split: option.splits prod.splits)
    let ?pre = "pre @ [GetNextGateCall next_gate] @ args @ [ExpandGateCall, MergeCall]"
    from Suc.prems(1) False st calls
    have "expand_loop fuel ord ops h gates1 merged (?pre @ [GetNextGateCall next1]) next1
          = Some (Inr (gates', container', trace'))"
      by simp
    moreover from Suc.prems(2) False args have "list_all expansion_call ?pre"
      by simp
    ultimately show ?thesis
      by (rule Suc.IH)
  qed
qed

lemma expand_loop_ends:
  assumes "expand_loop fuel ord ops h gates c trace next_gate = Some (Inr (gates', c', trace'))"
    and "next_gate = GetNextGate ops c"
  shows "GetNextGate ops c' = 0"
  using assms
proof (induction fuel arbitrary: gates c trace next_gate)
  case 0
  then show ?case by simp
next
  case (Suc fuel)
  show ?case
  proof (cases "next_gate = 0")
    case True
    with Suc.prems show ?thesis by simp
  next
    case False
    from Suc.prems(1) False obtain gates1 merged calls next1 where
      st: "expand_step ord ops h gates c next_gate = Inr (gates1, merged, calls, next1)"
      by (auto split: sum.splits)
    then have n: "next1 = GetNextGate ops merged"
      by (auto simp: expand_step_def Let_def split: option.splits prod.splits)
    from Suc.prems(1) False st
    have "expand_loop fuel ord ops h gates1 merged (trace @ calls) next1
          = Some (Inr (gates', c', trace'))"
      by simp
    from Suc.IH [OF this n] show ?thesis .
  qed
qed

lemma finish_module_final:
  "finish_module analyze ops is_coherent gates c trace =
     final_container ops
       (join_modules analyze ops gates
          (GatherModules ops (minimized_container ops is_coherent c))
          (minimized_container ops is_coherent c)
          (trace @ minimize_calls is_coherent @ [GatherModulesCall]))"
  by (cases is_coherent)
     (auto simp: finish_module_def final_container_def minimized_container_def minimize_calls_def
        Let_def split: option.splits sum.splits)

lemma mocus_loop_run:
  "map_option (map_sum id snd)
     (expand_loop 5 RightToLeft spec_ops mocus_store (gate_args mocus_top) mocus_seed
        [ConvertGateCall 10, MergeCall, GetNextGateCall 11] 11)
   = Some (Inr (\<lparr>family = [[1, 2, 1, 14], [1, 3, 1, 14]], modules_known = [14], gate_bound = 5\<rparr>,
        [ConvertGateCall 10, MergeCall, GetNextGateCall 11,
         ExtractIntermediateCutSetsCall 11, ConvertGateCall 11,
         ExpandGateCall, MergeCall, GetNextGateCall 12,
         ExtractIntermediateCutSetsCall 12, ConvertGateCall 12,
         ExpandGateCall, MergeCall, GetNextGateCall 13,
         ExtractIntermediateCutSetsCall 13, ConvertGateCall 13,
         ExpandGateCall, MergeCall, GetNextGateCall 0]))"
  by code_simp

lemma loop_result:
  assumes "map_option (map_sum id snd) r = Some (Inr (c, t))"
  shows "\<exists>g. r = Some (Inr (g, c, t))"
proof -
  from assms obtain z where z: "r = Some z" "map_sum id snd z = Inr (c, t)"
    by (cases r) auto
  then obtain x where "z = Inr x" "snd x = (c, t)"
    by (cases z) auto
  with z show ?thesis by (cases x) auto
qed

lemma mocus_run:
  "AnalyzeModule 5 RightToLeft spec_ops mocus_store (mocus_graph\<lparr>coherent := False\<rparr>) 0
   = Some (Inr (\<lparr>family = [[1, 2, 1, 4], [1, 2, 1, 5], [1, 3, 1, 4], [1, 3, 1, 5]],
           modules_known = [14], gate_bound = 5\<rparr>,
        [ConvertGateCall 10, MergeCall, GetNextGateCall 11,
         ExtractIntermediateCutSetsCall 11, ConvertGateCall 11,
         ExpandGateCall, MergeCall, GetNextGateCall 12,
         ExtractIntermediateCutSetsCall 12, ConvertGateCall 12,
         ExpandGateCall, MergeCall, GetNextGateCall 13,
         ExtractIntermediateCutSetsCall 13, ConvertGateCall 13,
         ExpandGateCall, MergeCall, GetNextGateCall 0, MinimizeCall,
         EliminateComplementsCall, MinimizeCall, GatherModulesCall,
         JoinModuleCall 14
          [ConvertGateCall 14, MergeCall, GetNextGateCall 0, MinimizeCall,
           EliminateComplementsCall, MinimizeCall, GatherModulesCall,
           EliminateConstantModulesCall, MinimizeCall],
         EliminateConstantModulesCall, MinimizeCall]))"
  by code_simp

text \<open>
  C4. When the expansion loop of \<^verbatim>\<open>AnalyzeModule\<close> on a module gate has ended,
  \<^verbatim>\<open>GetNextGate\<close> returns 0 on the container it leaves and the calls up to there
  are calls of the expansion, ended by that call of \<^verbatim>\<open>GetNextGate\<close>. The result of
  \<^verbatim>\<open>AnalyzeModule\<close> is then what the joining of the modules makes of the
  container after \<^verbatim>\<open>Minimize\<close>, and after \<^verbatim>\<open>EliminateComplements\<close> and a second
  \<^verbatim>\<open>Minimize\<close> exactly when the graph is not coherent, followed by
  \<^verbatim>\<open>EliminateConstantModules\<close> and a final \<^verbatim>\<open>Minimize\<close>; the calls are made in this
  order. This holds for any operations of the container, for both orders of
  evaluation of the arguments of \<^verbatim>\<open>ExpandGate\<close>, and whether or not the analysis
  of the modules returns.
\<close>

theorem AnalyzeModule_calls:
  assumes "gate_at h p = Some gate" and "IsModule gate"
    and "seed = Merge ops (NewCutSetContainer ops (length (basic_events graph)))
                  (ConvertGate ops (NewCutSetContainer ops (length (basic_events graph))) h gate)"
    and "expand_loop (Suc fuel) ord ops h (gate_args gate) seed
           [ConvertGateCall (index gate), MergeCall, GetNextGateCall (GetNextGate ops seed)]
           (GetNextGate ops seed)
         = Some (Inr (gates', expanded, trace))"
  shows "GetNextGate ops expanded = 0
       \<and> (\<exists>expansion. trace = expansion @ [GetNextGateCall 0]
             \<and> list_all expansion_call expansion)
       \<and> AnalyzeModule (Suc fuel) ord ops h graph p =
           final_container ops
             (join_modules (AnalyzeModule fuel ord ops h graph) ops gates'
                (GatherModules ops (minimized_container ops (coherent graph) expanded))
                (minimized_container ops (coherent graph) expanded)
                (trace @ minimize_calls (coherent graph) @ [GatherModulesCall]))"
proof (intro conjI)
  from expand_loop_ends [OF assms(4)] show "GetNextGate ops expanded = 0"
    by simp
next
  have "list_all expansion_call [ConvertGateCall (index gate), MergeCall]" by simp
  from expand_loop_log [of "Suc fuel" ord ops h "gate_args gate" seed
      "[ConvertGateCall (index gate), MergeCall]" "GetNextGate ops seed" gates' expanded trace]
    assms(4) this
  show "\<exists>expansion. trace = expansion @ [GetNextGateCall 0] \<and> list_all expansion_call expansion"
    by simp
next
  from assms show "AnalyzeModule (Suc fuel) ord ops h graph p =
           final_container ops
             (join_modules (AnalyzeModule fuel ord ops h graph) ops gates'
                (GatherModules ops (minimized_container ops (coherent graph) expanded))
                (minimized_container ops (coherent graph) expanded)
                (trace @ minimize_calls (coherent graph) @ [GatherModulesCall]))"
    by (simp add: Let_def finish_module_final)
qed

theorem AnalyzeModule_calls_witness:
  "gate_at mocus_store 0 = Some mocus_top \<and> IsModule mocus_top
   \<and> (\<exists>gates'.
        expand_loop 5 RightToLeft spec_ops mocus_store (gate_args mocus_top) mocus_seed
          [ConvertGateCall 10, MergeCall, GetNextGateCall 11] 11
        = Some (Inr (gates',
            \<lparr>family = [[1, 2, 1, 14], [1, 3, 1, 14]], modules_known = [14], gate_bound = 5\<rparr>,
            [ConvertGateCall 10, MergeCall, GetNextGateCall 11,
             ExtractIntermediateCutSetsCall 11, ConvertGateCall 11,
             ExpandGateCall, MergeCall, GetNextGateCall 12,
             ExtractIntermediateCutSetsCall 12, ConvertGateCall 12,
             ExpandGateCall, MergeCall, GetNextGateCall 13,
             ExtractIntermediateCutSetsCall 13, ConvertGateCall 13,
             ExpandGateCall, MergeCall] @ [GetNextGateCall 0]))
        \<and> AnalyzeModule 5 RightToLeft spec_ops mocus_store (mocus_graph\<lparr>coherent := False\<rparr>) 0
          = final_container spec_ops
             (join_modules
                (AnalyzeModule 4 RightToLeft spec_ops mocus_store (mocus_graph\<lparr>coherent := False\<rparr>))
                spec_ops gates' [14]
                (SpecMinimize (SpecEliminateComplements (SpecMinimize
                   \<lparr>family = [[1, 2, 1, 14], [1, 3, 1, 14]], modules_known = [14], gate_bound = 5\<rparr>)))
                ([ConvertGateCall 10, MergeCall, GetNextGateCall 11,
                  ExtractIntermediateCutSetsCall 11, ConvertGateCall 11,
                  ExpandGateCall, MergeCall, GetNextGateCall 12,
                  ExtractIntermediateCutSetsCall 12, ConvertGateCall 12,
                  ExpandGateCall, MergeCall, GetNextGateCall 13,
                  ExtractIntermediateCutSetsCall 13, ConvertGateCall 13,
                  ExpandGateCall, MergeCall, GetNextGateCall 0]
                 @ [MinimizeCall, EliminateComplementsCall, MinimizeCall] @ [GatherModulesCall])))
   \<and> GetNextGate spec_ops
        \<lparr>family = [[1, 2, 1, 14], [1, 3, 1, 14]], modules_known = [14], gate_bound = 5\<rparr> = 0
   \<and> AnalyzeModule 5 RightToLeft spec_ops mocus_store (mocus_graph\<lparr>coherent := False\<rparr>) 0
     = Some (Inr (\<lparr>family = [[1, 2, 1, 4], [1, 2, 1, 5], [1, 3, 1, 4], [1, 3, 1, 5]],
           modules_known = [14], gate_bound = 5\<rparr>,
        [ConvertGateCall 10, MergeCall, GetNextGateCall 11,
         ExtractIntermediateCutSetsCall 11, ConvertGateCall 11,
         ExpandGateCall, MergeCall, GetNextGateCall 12,
         ExtractIntermediateCutSetsCall 12, ConvertGateCall 12,
         ExpandGateCall, MergeCall, GetNextGateCall 13,
         ExtractIntermediateCutSetsCall 13, ConvertGateCall 13,
         ExpandGateCall, MergeCall, GetNextGateCall 0, MinimizeCall,
         EliminateComplementsCall, MinimizeCall, GatherModulesCall,
         JoinModuleCall 14
          [ConvertGateCall 14, MergeCall, GetNextGateCall 0, MinimizeCall,
           EliminateComplementsCall, MinimizeCall, GatherModulesCall,
           EliminateConstantModulesCall, MinimizeCall],
         EliminateConstantModulesCall, MinimizeCall]))"
proof -
  let ?G = "mocus_graph\<lparr>coherent := False\<rparr>"
  let ?E = "\<lparr>family = [[1, 2, 1, 14], [1, 3, 1, 14]], modules_known = [14], gate_bound = 5\<rparr>"
  have g: "gate_at mocus_store 0 = Some mocus_top"
    by (simp add: mocus_store_def mocus_top_def)
  have m: "IsModule mocus_top"
    by (simp add: IsModule_def mocus_top_def mocus_gate_def)
  have len: "length (basic_events ?G) = 5"
    by (simp add: mocus_graph_def)
  have seed: "mocus_seed = Merge spec_ops (NewCutSetContainer spec_ops (length (basic_events ?G)))
       (ConvertGate spec_ops (NewCutSetContainer spec_ops (length (basic_events ?G)))
          mocus_store mocus_top)"
    by (simp only: len mocus_seed_def)
  have n: "GetNextGate spec_ops mocus_seed = 11" by code_simp
  have i: "index mocus_top = 10" by (simp add: mocus_top_def mocus_gate_def)
  have mods: "GatherModules spec_ops (SpecMinimize (SpecEliminateComplements (SpecMinimize ?E))) = [14]"
    by code_simp
  have mc: "minimized_container spec_ops (coherent ?G) ?E
      = SpecMinimize (SpecEliminateComplements (SpecMinimize ?E))"
    by (simp add: minimized_container_def spec_ops_def)
  have calls: "minimize_calls (coherent ?G) = [MinimizeCall, EliminateComplementsCall, MinimizeCall]"
    by (simp add: minimize_calls_def)
  have five: "Suc 4 = 5" by simp
  from loop_result [OF mocus_loop_run] obtain gates' where
    loop: "expand_loop 5 RightToLeft spec_ops mocus_store (gate_args mocus_top) mocus_seed
        [ConvertGateCall 10, MergeCall, GetNextGateCall 11] 11
      = Some (Inr (gates', ?E,
        [ConvertGateCall 10, MergeCall, GetNextGateCall 11,
         ExtractIntermediateCutSetsCall 11, ConvertGateCall 11,
         ExpandGateCall, MergeCall, GetNextGateCall 12,
         ExtractIntermediateCutSetsCall 12, ConvertGateCall 12,
         ExpandGateCall, MergeCall, GetNextGateCall 13,
         ExtractIntermediateCutSetsCall 13, ConvertGateCall 13,
         ExpandGateCall, MergeCall, GetNextGateCall 0]))"
    by blast
  then have loop': "expand_loop (Suc 4) RightToLeft spec_ops mocus_store (gate_args mocus_top) mocus_seed
        [ConvertGateCall (index mocus_top), MergeCall, GetNextGateCall (GetNextGate spec_ops mocus_seed)]
        (GetNextGate spec_ops mocus_seed)
      = Some (Inr (gates', ?E,
        [ConvertGateCall 10, MergeCall, GetNextGateCall 11,
         ExtractIntermediateCutSetsCall 11, ConvertGateCall 11,
         ExpandGateCall, MergeCall, GetNextGateCall 12,
         ExtractIntermediateCutSetsCall 12, ConvertGateCall 12,
         ExpandGateCall, MergeCall, GetNextGateCall 13,
         ExtractIntermediateCutSetsCall 13, ConvertGateCall 13,
         ExpandGateCall, MergeCall, GetNextGateCall 0]))"
    by (simp only: n i five)
  note calls_thm = AnalyzeModule_calls [OF g m seed loop']
  from calls_thm have z: "GetNextGate spec_ops ?E = 0"
    by (rule conjunct1)
  from calls_thm have "AnalyzeModule (Suc 4) RightToLeft spec_ops mocus_store ?G 0 =
      final_container spec_ops
        (join_modules (AnalyzeModule 4 RightToLeft spec_ops mocus_store ?G) spec_ops gates'
           (GatherModules spec_ops (minimized_container spec_ops (coherent ?G) ?E))
           (minimized_container spec_ops (coherent ?G) ?E)
           ([ConvertGateCall 10, MergeCall, GetNextGateCall 11,
             ExtractIntermediateCutSetsCall 11, ConvertGateCall 11,
             ExpandGateCall, MergeCall, GetNextGateCall 12,
             ExtractIntermediateCutSetsCall 12, ConvertGateCall 12,
             ExpandGateCall, MergeCall, GetNextGateCall 13,
             ExtractIntermediateCutSetsCall 13, ConvertGateCall 13,
             ExpandGateCall, MergeCall, GetNextGateCall 0]
            @ minimize_calls (coherent ?G) @ [GatherModulesCall]))"
    by (rule conjunct2 [THEN conjunct2])
  then have fin: "AnalyzeModule 5 RightToLeft spec_ops mocus_store ?G 0 =
      final_container spec_ops
        (join_modules (AnalyzeModule 4 RightToLeft spec_ops mocus_store ?G) spec_ops gates' [14]
           (SpecMinimize (SpecEliminateComplements (SpecMinimize ?E)))
           ([ConvertGateCall 10, MergeCall, GetNextGateCall 11,
             ExtractIntermediateCutSetsCall 11, ConvertGateCall 11,
             ExpandGateCall, MergeCall, GetNextGateCall 12,
             ExtractIntermediateCutSetsCall 12, ConvertGateCall 12,
             ExpandGateCall, MergeCall, GetNextGateCall 13,
             ExtractIntermediateCutSetsCall 13, ConvertGateCall 13,
             ExpandGateCall, MergeCall, GetNextGateCall 0]
            @ [MinimizeCall, EliminateComplementsCall, MinimizeCall] @ [GatherModulesCall]))"
    by (simp only: mc calls five mods)
  have split: "[ConvertGateCall 10, MergeCall, GetNextGateCall 11,
             ExtractIntermediateCutSetsCall 11, ConvertGateCall 11,
             ExpandGateCall, MergeCall, GetNextGateCall 12,
             ExtractIntermediateCutSetsCall 12, ConvertGateCall 12,
             ExpandGateCall, MergeCall, GetNextGateCall 13,
             ExtractIntermediateCutSetsCall 13, ConvertGateCall 13,
             ExpandGateCall, MergeCall] @ [GetNextGateCall 0]
       = [ConvertGateCall 10, MergeCall, GetNextGateCall 11,
             ExtractIntermediateCutSetsCall 11, ConvertGateCall 11,
             ExpandGateCall, MergeCall, GetNextGateCall 12,
             ExtractIntermediateCutSetsCall 12, ConvertGateCall 12,
             ExpandGateCall, MergeCall, GetNextGateCall 13,
             ExtractIntermediateCutSetsCall 13, ConvertGateCall 13,
             ExpandGateCall, MergeCall, GetNextGateCall 0]"
    by simp
  from loop fin have "\<exists>gates'.
        expand_loop 5 RightToLeft spec_ops mocus_store (gate_args mocus_top) mocus_seed
          [ConvertGateCall 10, MergeCall, GetNextGateCall 11] 11
        = Some (Inr (gates', ?E,
            [ConvertGateCall 10, MergeCall, GetNextGateCall 11,
             ExtractIntermediateCutSetsCall 11, ConvertGateCall 11,
             ExpandGateCall, MergeCall, GetNextGateCall 12,
             ExtractIntermediateCutSetsCall 12, ConvertGateCall 12,
             ExpandGateCall, MergeCall, GetNextGateCall 13,
             ExtractIntermediateCutSetsCall 13, ConvertGateCall 13,
             ExpandGateCall, MergeCall] @ [GetNextGateCall 0]))
        \<and> AnalyzeModule 5 RightToLeft spec_ops mocus_store ?G 0
          = final_container spec_ops
             (join_modules (AnalyzeModule 4 RightToLeft spec_ops mocus_store ?G)
                spec_ops gates' [14]
                (SpecMinimize (SpecEliminateComplements (SpecMinimize ?E)))
                ([ConvertGateCall 10, MergeCall, GetNextGateCall 11,
                  ExtractIntermediateCutSetsCall 11, ConvertGateCall 11,
                  ExpandGateCall, MergeCall, GetNextGateCall 12,
                  ExtractIntermediateCutSetsCall 12, ConvertGateCall 12,
                  ExpandGateCall, MergeCall, GetNextGateCall 13,
                  ExtractIntermediateCutSetsCall 13, ConvertGateCall 13,
                  ExpandGateCall, MergeCall, GetNextGateCall 0]
                 @ [MinimizeCall, EliminateComplementsCall, MinimizeCall] @ [GatherModulesCall]))"
    unfolding split by blast
  with g m z mocus_run show ?thesis
    by (intro conjI)
qed

section \<open>A constant graph\<close>

text \<open>
  C6. When the top gate of the graph is constant or of the NULL type, the
  constructor of \<^verbatim>\<open>Mocus\<close> sets \<^verbatim>\<open>constant_graph_\<close> and holds the analyzed \<^verbatim>\<open>Zbdd\<close> of
  the graph; \<^verbatim>\<open>Analyze\<close> returns at once, with any fuel and also with none, makes
  no call on a container and leaves the object as it is; and \<^verbatim>\<open>products\<close> returns
  the products of that \<^verbatim>\<open>Zbdd\<close>, its assertion holding.
\<close>

theorem constant_graph_no_expansion:
  assumes "gate_at h (top_event graph) = Some top_gate"
    and "IsConstant top_gate \<or> type top_gate = kNullGate"
  shows "\<exists>m. NewMocus zops h graph = Inr m \<and> constant_graph m
           \<and> zbdd m = Some (ZbddAnalyze zops (NewZbdd zops h (top_event graph)))
           \<and> (\<forall>fuel ord. Analyze fuel ord zops ops h graph m = Some (Inr (m, [])))
           \<and> products zops m
               = Inr (ZbddProducts zops (ZbddAnalyze zops (NewZbdd zops h (top_event graph))))"
  using assms by (auto simp: NewMocus_def Analyze_def products_def)

theorem constant_graph_no_expansion_witness:
  "gate_at null_store (top_event mocus_graph)
     = Some ((mocus_gate 10 kAndGate False {||} Map.empty Map.empty Map.empty)\<lparr>state := kNullState\<rparr>)
   \<and> IsConstant ((mocus_gate 10 kAndGate False {||} Map.empty Map.empty Map.empty)\<lparr>state := kNullState\<rparr>)
   \<and> (\<exists>m. NewMocus constant_zbdd_ops null_store mocus_graph = Inr m
         \<and> constant_graph m
         \<and> zbdd m = Some \<lparr>family = [], modules_known = [], gate_bound = 0\<rparr>
         \<and> Analyze 0 RightToLeft constant_zbdd_ops spec_ops null_store mocus_graph m = Some (Inr (m, []))
         \<and> products constant_zbdd_ops m = Inr [])"
proof -
  let ?g = "(mocus_gate 10 kAndGate False {||} Map.empty Map.empty Map.empty)\<lparr>state := kNullState\<rparr>"
  have g: "gate_at null_store (top_event mocus_graph) = Some ?g"
    by (simp add: null_store_def mocus_graph_def)
  have c: "IsConstant ?g"
    by (simp add: IsConstant_def)
  then have c': "IsConstant ?g \<or> type ?g = kNullGate" ..
  have z: "ZbddAnalyze constant_zbdd_ops (NewZbdd constant_zbdd_ops null_store (top_event mocus_graph))
      = \<lparr>family = [], modules_known = [], gate_bound = 0\<rparr>"
    by (simp add: constant_zbdd_ops_def null_store_def mocus_graph_def SpecMinimize_def)
  have p: "ZbddProducts constant_zbdd_ops \<lparr>family = [], modules_known = [], gate_bound = 0\<rparr> = []"
    by (simp add: constant_zbdd_ops_def)
  from constant_graph_no_expansion [OF g c', where zops = constant_zbdd_ops and ops = spec_ops]
  obtain m where m: "NewMocus constant_zbdd_ops null_store mocus_graph = Inr m"
    "constant_graph m"
    "zbdd m = Some (ZbddAnalyze constant_zbdd_ops
        (NewZbdd constant_zbdd_ops null_store (top_event mocus_graph)))"
    "\<forall>fuel ord. Analyze fuel ord constant_zbdd_ops spec_ops null_store mocus_graph m = Some (Inr (m, []))"
    "products constant_zbdd_ops m = Inr (ZbddProducts constant_zbdd_ops
        (ZbddAnalyze constant_zbdd_ops (NewZbdd constant_zbdd_ops null_store (top_event mocus_graph))))"
    by blast
  from m(3) z have "zbdd m = Some \<lparr>family = [], modules_known = [], gate_bound = 0\<rparr>"
    by simp
  moreover from m(5) z p have "products constant_zbdd_ops m = Inr []"
    by simp
  moreover from m(4) have "Analyze 0 RightToLeft constant_zbdd_ops spec_ops null_store mocus_graph m
      = Some (Inr (m, []))"
    by blast
  ultimately show ?thesis
    using g c m(1,2) by blast
qed

section \<open>The lookups in the local map of gates\<close>

lemma spec_ops_simps [simp]:
  "NewCutSetContainer spec_ops n = \<lparr>family = [], modules_known = [], gate_bound = int n\<rparr>"
  "ConvertGate spec_ops = SpecConvertGate"
  "Merge spec_ops = SpecMerge"
  "GetNextGate spec_ops = SpecGetNextGate"
  "ExtractIntermediateCutSets spec_ops = SpecExtractIntermediateCutSets"
  "ExpandGate spec_ops = SpecExpandGate"
  "Minimize spec_ops = SpecMinimize"
  "EliminateComplements spec_ops = SpecEliminateComplements"
  "GatherModules spec_ops = SpecGatherModules"
  "JoinModule spec_ops = SpecJoinModule"
  "EliminateConstantModules spec_ops = SpecEliminateConstantModules"
  by (simp_all add: spec_ops_def)

lemma gate_child_facts:
  assumes wf: "wf_store h" and nnf: "nnf_indexed h bound"
    and g: "gate_at h p = Some g" and k: "gate_children g k = Some q"
  shows "bound < k" and "k |\<in>| children g" and "\<exists>g'. gate_at h q = Some g' \<and> index g' = k"
proof -
  from wf g have wfg: "wf_gate h g" by (simp add: wf_store_def)
  from k have cp: "child_ptr g k = Some (GatePtr q)"
    by (simp add: child_ptr_def)
  with wfg show ch: "k |\<in>| children g"
    unfolding wf_gate_def by (metis option.distinct(1))
  with nnf g k show b: "bound < k"
    unfolding nnf_indexed_def by (metis option.distinct(1))
  from nnf have "0 \<le> bound" by (simp add: nnf_indexed_def)
  with b have "\<bar>k\<bar> = k" by simp
  moreover from wfg cp have "node_index h (GatePtr q) = Some \<bar>k\<bar>"
    unfolding wf_gate_def by blast
  ultimately show "\<exists>g'. gate_at h q = Some g' \<and> index g' = k"
    by (auto simp: node_index_def)
qed

lemma SpecConvertGate_literals:
  assumes "cs \<in> set (fst (SpecConvertGate c h g))" and "l \<in> set cs"
  shows "l |\<in>| children g"
  using assms
  by (cases "type g") (auto simp: SpecConvertGate_def Let_def sorted_list_of_fset.rep_eq)

lemma SpecConvertGate_modules:
  assumes "m \<in> set (snd (SpecConvertGate c h g))"
  shows "\<exists>q g'. gate_children g m = Some q \<and> gate_at h q = Some g' \<and> module g'"
  using assms
  by (auto simp: SpecConvertGate_def Let_def gate_args_def IsModule_def split: option.splits)

lemma expansion_inv_init:
  assumes wf: "wf_store h" and nnf: "nnf_indexed h bound" and g: "gate_at h p = Some gate"
    and c0: "c0 = \<lparr>family = [], modules_known = [], gate_bound = bound\<rparr>"
  shows "expansion_inv h bound (gate_args gate)
     (SpecMerge c0 (SpecConvertGate c0 h gate))"
  unfolding expansion_inv_def
proof (intro conjI ballI allI impI)
  show "gate_bound (SpecMerge c0 (SpecConvertGate c0 h gate)) = bound"
    by (simp add: SpecMerge_def c0)
next
  fix cs l
  assume "cs \<in> set (family (SpecMerge c0 (SpecConvertGate c0 h gate)))" "l \<in> set cs" "bound < l"
  then have "l |\<in>| children gate"
    using SpecConvertGate_literals [of cs c0 h gate l] by (simp add: SpecMerge_def c0)
  with nnf g \<open>bound < l\<close> show "gate_args gate l \<noteq> None"
    unfolding nnf_indexed_def gate_args_def by blast
next
  fix k q assume "gate_args gate k = Some q"
  then show "\<exists>g. gate_at h q = Some g \<and> index g = k"
    using gate_child_facts(3) [OF wf nnf g] by (simp add: gate_args_def)
next
  fix m assume m: "m \<in> set (modules_known (SpecMerge c0 (SpecConvertGate c0 h gate)))"
  then have "m \<in> set (snd (SpecConvertGate c0 h gate))"
    by (simp add: SpecMerge_def c0)
  from SpecConvertGate_modules [OF this] obtain q g' where
    q: "gate_children gate m = Some q" "gate_at h q = Some g'" "module g'"
    by blast
  from gate_child_facts(1) [OF wf nnf g q(1)] show "bound < m" .
  from gate_child_facts(3) [OF wf nnf g q(1)] q
  show "\<exists>p g. gate_at h p = Some g \<and> index g = m \<and> module g"
    by auto
qed

lemma SpecGetNextGate_placeholder:
  "SpecGetNextGate c \<noteq> 0 \<Longrightarrow> SpecGetNextGate c \<in> set (placeholders c)"
  by (auto simp: SpecGetNextGate_def split: list.splits)

lemma placeholders_set:
  "set (placeholders c) = {l. (\<exists>cs \<in> set (family c). l \<in> set cs) \<and> gate_bound c < l
      \<and> l \<notin> set (modules_known c)}"
  by (auto simp: placeholders_def)

lemma expanded_literals:
  assumes "cs \<in> set (family (expanded_container c h inter_gate g))" and "l \<in> set cs"
  shows "(l \<noteq> g \<and> (\<exists>cs0 \<in> set (family c). l \<in> set cs0)) \<or> l |\<in>| children inter_gate"
proof -
  from assms(1) have "(cs \<in> set (family c) \<and> g \<notin> set cs)
      \<or> (\<exists>gs cs0. gs \<in> set (fst (SpecConvertGate c h inter_gate)) \<and> cs0 \<in> set (family c)
            \<and> cs = gs @ removeAll g cs0)"
    by (auto simp: expanded_container_def SpecMerge_def SpecExpandGate_def SpecExtractIntermediateCutSets_def)
  then show ?thesis
  proof (elim disjE exE conjE)
    assume "cs \<in> set (family c)" "g \<notin> set cs"
    with assms(2) show ?thesis by auto
  next
    fix gs cs0
    assume gs: "gs \<in> set (fst (SpecConvertGate c h inter_gate))" and cs0: "cs0 \<in> set (family c)"
      and cs: "cs = gs @ removeAll g cs0"
    from assms(2) cs have "l \<in> set gs \<or> (l \<in> set cs0 \<and> l \<noteq> g)" by auto
    then show ?thesis
    proof
      assume "l \<in> set gs"
      from SpecConvertGate_literals [OF gs this] show ?thesis ..
    next
      assume "l \<in> set cs0 \<and> l \<noteq> g"
      with cs0 show ?thesis by blast
    qed
  qed
qed

lemma expanded_modules:
  "modules_known (expanded_container c h inter_gate g)
     = modules_known c @ snd (SpecConvertGate c h inter_gate)"
  by (simp add: expanded_container_def SpecMerge_def SpecExpandGate_def SpecExtractIntermediateCutSets_def)

lemma expanded_bound:
  "gate_bound (expanded_container c h inter_gate g) = gate_bound c"
  by (simp add: expanded_container_def SpecMerge_def SpecExpandGate_def SpecExtractIntermediateCutSets_def)

lemma expand_step_spec_eq:
  assumes "gates g = Some p" and "gate_at h p = Some inter_gate"
  shows "expand_step ord spec_ops h gates c g
     = Inr (gate_args inter_gate ++ gates, expanded_container c h inter_gate g,
            argument_calls ord (index inter_gate) g
            @ [ExpandGateCall, MergeCall,
               GetNextGateCall (SpecGetNextGate (expanded_container c h inter_gate g))],
            SpecGetNextGate (expanded_container c h inter_gate g))"
  using assms
  by (cases ord)
     (simp_all add: expand_step_def expand_arguments_def expanded_container_def Let_def
        SpecConvertGate_def split: prod.splits)

lemma expansion_step:
  assumes wf: "wf_store h" and nnf: "nnf_indexed h bound"
    and inv: "expansion_inv h bound gates c" and nz: "SpecGetNextGate c \<noteq> 0"
  shows "\<exists>p inter_gate. gates (SpecGetNextGate c) = Some p \<and> gate_at h p = Some inter_gate
      \<and> index inter_gate = SpecGetNextGate c
      \<and> expansion_inv h bound (gate_args inter_gate ++ gates)
           (expanded_container c h inter_gate (SpecGetNextGate c))
      \<and> set (placeholders (expanded_container c h inter_gate (SpecGetNextGate c)))
           \<subseteq> (set (placeholders c) - {SpecGetNextGate c})
              \<union> {k. k \<noteq> SpecGetNextGate c \<and> gate_children inter_gate k \<noteq> None}
              \<union> {k. k = SpecGetNextGate c \<and> gate_children inter_gate k \<noteq> None}"
proof -
  let ?g = "SpecGetNextGate c"
  from inv have b: "gate_bound c = bound"
    and lits: "\<And>cs l. cs \<in> set (family c) \<Longrightarrow> l \<in> set cs \<Longrightarrow> bound < l \<Longrightarrow> gates l \<noteq> None"
    and alloc: "\<And>k p. gates k = Some p \<Longrightarrow> \<exists>g. gate_at h p = Some g \<and> index g = k"
    and mods: "\<And>m. m \<in> set (modules_known c) \<Longrightarrow>
        bound < m \<and> (\<exists>p g. gate_at h p = Some g \<and> index g = m \<and> module g)"
    unfolding expansion_inv_def by blast+
  from SpecGetNextGate_placeholder [OF nz] b obtain cs where
    "cs \<in> set (family c)" "?g \<in> set cs" "bound < ?g"
    by (auto simp: placeholders_set)
  from lits [OF this] obtain p where p: "gates ?g = Some p" by blast
  from alloc [OF p] obtain inter_gate where ig: "gate_at h p = Some inter_gate"
    "index inter_gate = ?g"
    by blast
  let ?c = "expanded_container c h inter_gate ?g"
  have inv': "expansion_inv h bound (gate_args inter_gate ++ gates) ?c"
    unfolding expansion_inv_def
  proof (intro conjI ballI allI impI)
    show "gate_bound ?c = bound" using b by (simp add: expanded_bound)
  next
    fix cs l assume "cs \<in> set (family ?c)" "l \<in> set cs" and bl: "bound < l"
    from expanded_literals [OF this(1,2)]
    show "(gate_args inter_gate ++ gates) l \<noteq> None"
    proof
      assume "l \<noteq> ?g \<and> (\<exists>cs0 \<in> set (family c). l \<in> set cs0)"
      with lits bl have "gates l \<noteq> None" by blast
      then show ?thesis by (auto simp: map_add_def split: option.splits)
    next
      assume "l |\<in>| children inter_gate"
      with nnf ig(1) bl have "gate_children inter_gate l \<noteq> None"
        unfolding nnf_indexed_def by blast
      then show ?thesis
        by (cases "gates l") (auto simp: map_add_def gate_args_def)
    qed
  next
    fix k q assume "(gate_args inter_gate ++ gates) k = Some q"
    then have "gates k = Some q \<or> gate_children inter_gate k = Some q"
      by (auto simp: map_add_def gate_args_def split: option.splits)
    then show "\<exists>g. gate_at h q = Some g \<and> index g = k"
      using alloc gate_child_facts(3) [OF wf nnf ig(1)] by blast
  next
    fix m assume "m \<in> set (modules_known ?c)"
    then have "m \<in> set (modules_known c) \<or> m \<in> set (snd (SpecConvertGate c h inter_gate))"
      by (simp add: expanded_modules)
    then have "bound < m \<and> (\<exists>p g. gate_at h p = Some g \<and> index g = m \<and> module g)"
    proof
      assume "m \<in> set (modules_known c)"
      then show ?thesis by (rule mods)
    next
      assume "m \<in> set (snd (SpecConvertGate c h inter_gate))"
      from SpecConvertGate_modules [OF this] obtain q g' where
        q: "gate_children inter_gate m = Some q" "gate_at h q = Some g'" "module g'"
        by blast
      from gate_child_facts(1,3) [OF wf nnf ig(1) q(1)] q show ?thesis by auto
    qed
    then show "bound < m" and "\<exists>p g. gate_at h p = Some g \<and> index g = m \<and> module g"
      by blast+
  qed
  have sub: "set (placeholders ?c) \<subseteq> (set (placeholders c) - {?g})
      \<union> {k. k \<noteq> ?g \<and> gate_children inter_gate k \<noteq> None}
      \<union> {k. k = ?g \<and> gate_children inter_gate k \<noteq> None}"
  proof
    fix l assume "l \<in> set (placeholders ?c)"
    then obtain cs where l: "cs \<in> set (family ?c)" "l \<in> set cs" "bound < l"
      "l \<notin> set (modules_known ?c)"
      using b by (auto simp: placeholders_set expanded_bound)
    from l(4) have nm: "l \<notin> set (modules_known c)"
      by (simp add: expanded_modules)
    from expanded_literals [OF l(1,2)]
    show "l \<in> (set (placeholders c) - {?g})
      \<union> {k. k \<noteq> ?g \<and> gate_children inter_gate k \<noteq> None}
      \<union> {k. k = ?g \<and> gate_children inter_gate k \<noteq> None}"
    proof
      assume "l \<noteq> ?g \<and> (\<exists>cs0 \<in> set (family c). l \<in> set cs0)"
      with l(3) nm b show ?thesis by (auto simp: placeholders_set)
    next
      assume "l |\<in>| children inter_gate"
      with nnf ig(1) l(3) have "gate_children inter_gate l \<noteq> None"
        unfolding nnf_indexed_def by blast
      then show ?thesis by blast
    qed
  qed
  from p ig inv' sub show ?thesis by blast
qed

lemma expand_loop_no_error:
  assumes wf: "wf_store h" and nnf: "nnf_indexed h bound"
    and inv: "expansion_inv h bound gates c"
  shows "expand_loop fuel ord spec_ops h gates c trace (SpecGetNextGate c) = None
       \<or> (\<exists>gates' c' trace'. expand_loop fuel ord spec_ops h gates c trace (SpecGetNextGate c)
              = Some (Inr (gates', c', trace'))
            \<and> expansion_inv h bound gates' c' \<and> SpecGetNextGate c' = 0)"
  using inv
proof (induction fuel arbitrary: gates c trace)
  case 0
  then show ?case by simp
next
  case (Suc fuel)
  show ?case
  proof (cases "SpecGetNextGate c = 0")
    case True
    with Suc.prems show ?thesis by simp
  next
    case False
    from expansion_step [OF wf nnf Suc.prems False] obtain p inter_gate where
      st: "gates (SpecGetNextGate c) = Some p" "gate_at h p = Some inter_gate"
        "expansion_inv h bound (gate_args inter_gate ++ gates)
           (expanded_container c h inter_gate (SpecGetNextGate c))"
      by blast
    note eq = expand_step_spec_eq [where c = c and gates = gates and g = "SpecGetNextGate c"
        and p = p and h = h and inter_gate = inter_gate, OF st(1,2)]
    from Suc.IH [OF st(3)] False eq
    show ?thesis by simp
  qed
qed

lemma expansion_inv_family_subset:
  assumes "expansion_inv h bound gates c"
    and "\<And>cs l. cs \<in> set fam \<Longrightarrow> l \<in> set cs \<Longrightarrow> \<exists>cs0 \<in> set (family c). l \<in> set cs0"
  shows "expansion_inv h bound gates (c\<lparr>family := fam\<rparr>)"
  using assms unfolding expansion_inv_def by simp blast

lemma expansion_inv_Minimize:
  assumes "expansion_inv h bound gates c"
  shows "expansion_inv h bound gates (SpecMinimize c)"
  unfolding SpecMinimize_def
  by (rule expansion_inv_family_subset [OF assms]) auto

lemma expansion_inv_EliminateComplements:
  assumes "expansion_inv h bound gates c"
  shows "expansion_inv h bound gates (SpecEliminateComplements c)"
  unfolding SpecEliminateComplements_def
  by (rule expansion_inv_family_subset [OF assms]) auto

lemma gathered_modules:
  assumes wf: "wf_store h" and inv: "expansion_inv h bound gates c"
    and m: "m \<in> set (SpecGatherModules c)"
  shows "\<exists>p g. gates m = Some p \<and> gate_at h p = Some g \<and> IsModule g"
proof -
  from m obtain cs where cs: "cs \<in> set (family c)" "m \<in> set cs" and mk: "m \<in> set (modules_known c)"
    by (auto simp: SpecGatherModules_def)
  from inv mk obtain p' g' where bm: "bound < m"
    and g': "gate_at h p' = Some g'" "index g' = m" "module g'"
    unfolding expansion_inv_def by blast
  from inv cs bm obtain p where p: "gates m = Some p"
    unfolding expansion_inv_def by blast
  with inv obtain g where g: "gate_at h p = Some g" "index g = m"
    unfolding expansion_inv_def by blast
  from g g' have "node_index h (GatePtr p) = Some m" "node_index h (GatePtr p') = Some m"
    by (simp_all add: node_index_def)
  with wf have "GatePtr p = GatePtr p'"
    unfolding wf_store_def by blast
  with g g' have "module g" by simp
  with p g show ?thesis by (auto simp: IsModule_def)
qed

lemma join_modules_no_error:
  assumes "\<forall>p g. gate_at h p = Some g \<longrightarrow> IsModule g \<longrightarrow> no_error (analyze p)"
    and "\<forall>m \<in> set ms. \<exists>p g. gates m = Some p \<and> gate_at h p = Some g \<and> IsModule g"
  shows "no_error (join_modules analyze spec_ops gates ms c trace)"
  using assms(2)
proof (induction ms arbitrary: c trace)
  case Nil
  then show ?case by (simp add: no_error_def)
next
  case (Cons m ms)
  from Cons.prems obtain p g where p: "gates m = Some p" "gate_at h p = Some g" "IsModule g"
    by auto
  from assms(1) p(2,3) have ne: "no_error (analyze p)" by blast
  from Cons.prems have rest: "\<forall>m \<in> set ms. \<exists>p g. gates m = Some p \<and> gate_at h p = Some g \<and> IsModule g"
    by simp
  show ?case
  proof (cases "analyze p")
    case None
    with p show ?thesis by (simp add: no_error_def)
  next
    case (Some r)
    with ne obtain sub sub_trace where "r = Inr (sub, sub_trace)"
      by (cases r) (auto simp: no_error_def)
    with Some p Cons.IH [OF rest] show ?thesis by simp
  qed
qed

lemma finish_module_no_error:
  assumes wf: "wf_store h" and inv: "expansion_inv h bound gates c"
    and rec: "\<forall>p g. gate_at h p = Some g \<longrightarrow> IsModule g \<longrightarrow> no_error (analyze p)"
  shows "no_error (finish_module analyze spec_ops is_coherent gates c trace)"
proof -
  let ?c2 = "if \<not> is_coherent then SpecMinimize (SpecEliminateComplements (SpecMinimize c))
             else SpecMinimize c"
  have inv2: "expansion_inv h bound gates ?c2"
    using inv by (simp add: expansion_inv_Minimize expansion_inv_EliminateComplements)
  have "\<forall>m \<in> set (SpecGatherModules ?c2). \<exists>p g. gates m = Some p \<and> gate_at h p = Some g \<and> IsModule g"
    using gathered_modules [OF wf inv2] by blast
  from join_modules_no_error [OF rec this]
  have j: "no_error (join_modules analyze spec_ops gates (SpecGatherModules ?c2) ?c2 l)" for l
    by blast
  show ?thesis
  proof (cases is_coherent)
    case True
    with j [of "trace @ [MinimizeCall] @ [GatherModulesCall]"] show ?thesis
      by (auto simp: finish_module_def Let_def no_error_def split: option.splits sum.splits)
  next
    case False
    with j [of "trace @ [MinimizeCall] @ [EliminateComplementsCall, MinimizeCall] @ [GatherModulesCall]"]
    show ?thesis
      by (auto simp: finish_module_def Let_def no_error_def split: option.splits sum.splits)
  qed
qed

lemma AnalyzeModule_no_error:
  assumes wf: "wf_store h" and nnf: "nnf_indexed h (int (length (basic_events graph)))"
  shows "gate_at h p = Some gate \<Longrightarrow> IsModule gate
    \<Longrightarrow> no_error (AnalyzeModule fuel ord spec_ops h graph p)"
proof (induction fuel arbitrary: p gate)
  case 0
  then show ?case by (simp add: no_error_def)
next
  case (Suc fuel)
  let ?bound = "int (length (basic_events graph))"
  let ?c0 = "\<lparr>family = [], modules_known = [], gate_bound = ?bound\<rparr>"
  let ?c1 = "SpecMerge ?c0 (SpecConvertGate ?c0 h gate)"
  let ?trace = "[ConvertGateCall (index gate), MergeCall, GetNextGateCall (SpecGetNextGate ?c1)]"
  have inv: "expansion_inv h ?bound (gate_args gate) ?c1"
    by (rule expansion_inv_init [OF wf nnf Suc.prems(1)]) simp
  from expand_loop_no_error [OF wf nnf inv, where fuel = "Suc fuel" and trace = ?trace]
  show ?case
  proof
    assume "expand_loop (Suc fuel) ord spec_ops h (gate_args gate) ?c1 ?trace (SpecGetNextGate ?c1) = None"
    with Suc.prems show ?thesis
      by (simp add: no_error_def Let_def)
  next
    assume "\<exists>gates' c' trace'.
       expand_loop (Suc fuel) ord spec_ops h (gate_args gate) ?c1 ?trace (SpecGetNextGate ?c1)
         = Some (Inr (gates', c', trace'))
       \<and> expansion_inv h ?bound gates' c' \<and> SpecGetNextGate c' = 0"
    then obtain gates' c' trace' where
      loop: "expand_loop (Suc fuel) ord spec_ops h (gate_args gate) ?c1 ?trace (SpecGetNextGate ?c1)
         = Some (Inr (gates', c', trace'))"
      and inv': "expansion_inv h ?bound gates' c'"
      by blast
    have "no_error (finish_module (AnalyzeModule fuel ord spec_ops h graph) spec_ops (coherent graph)
        gates' c' trace')"
      using Suc.IH by (intro finish_module_no_error [OF wf inv']) blast
    with Suc.prems loop show ?thesis
      by (simp add: Let_def)
  qed
qed

lemma mocus_gate_at:
  "gate_at mocus_store p = Some g \<longleftrightarrow>
     (p = 0 \<and> g = mocus_gate 10 kAndGate True {|1, 11, 14|} [11 \<mapsto> 1, 14 \<mapsto> 4] [1 \<mapsto> 0] Map.empty)
   \<or> (p = 1 \<and> g = mocus_gate 11 kOrGate False {|12, 13|} [12 \<mapsto> 2, 13 \<mapsto> 3] Map.empty [10 \<mapsto> 0])
   \<or> (p = 2 \<and> g = mocus_gate 12 kAndGate False {|1, 2|} Map.empty [1 \<mapsto> 0, 2 \<mapsto> 1] [11 \<mapsto> 1])
   \<or> (p = 3 \<and> g = mocus_gate 13 kAndGate False {|1, 3|} Map.empty [1 \<mapsto> 0, 3 \<mapsto> 2] [11 \<mapsto> 1])
   \<or> (p = 4 \<and> g = mocus_gate 14 kOrGate True {|4, 5|} Map.empty [4 \<mapsto> 3, 5 \<mapsto> 4] [10 \<mapsto> 0])"
  by (auto simp: mocus_store_def split: if_splits)

lemma mocus_node_index:
  "node_index mocus_store q = Some i \<longleftrightarrow>
     (q = GatePtr 0 \<and> i = 10) \<or> (q = GatePtr 1 \<and> i = 11) \<or> (q = GatePtr 2 \<and> i = 12)
   \<or> (q = GatePtr 3 \<and> i = 13) \<or> (q = GatePtr 4 \<and> i = 14)
   \<or> (q = VariablePtr 0 \<and> i = 1) \<or> (q = VariablePtr 1 \<and> i = 2) \<or> (q = VariablePtr 2 \<and> i = 3)
   \<or> (q = VariablePtr 3 \<and> i = 4) \<or> (q = VariablePtr 4 \<and> i = 5)"
  by (cases q) (auto simp: node_index_def mocus_store_def mocus_gate_def mocus_variable_def
      split: if_splits)

lemma mocus_wf_gate:
  "gate_at mocus_store p = Some g \<Longrightarrow> wf_gate mocus_store g"
  unfolding mocus_gate_at wf_gate_def mocus_node_index
  by (elim disjE conjE) (auto simp: mocus_gate_def child_ptr_def split: if_splits)

lemma mocus_node_parents:
  "node_parents mocus_store q = Some ps \<Longrightarrow> ps k = Some a \<Longrightarrow>
     (k = 10 \<and> a = 0) \<or> (k = 11 \<and> a = 1) \<or> (k = 12 \<and> a = 2) \<or> (k = 13 \<and> a = 3)
     \<or> (k = 14 \<and> a = 4)"
  by (cases q) (auto simp: node_parents_def mocus_store_def mocus_gate_def mocus_variable_def
      split: if_splits)

lemma mocus_wf: "wf_store mocus_store"
  unfolding wf_store_def
proof (intro conjI allI impI)
  fix a g assume "gate_at mocus_store a = Some g"
  then show "wf_gate mocus_store g" by (rule mocus_wf_gate)
next
  fix p i assume "node_index mocus_store p = Some i"
  then show "0 < i" unfolding mocus_node_index by auto
next
  fix p q i assume "node_index mocus_store p = Some i \<and> node_index mocus_store q = Some i"
  then show "p = q" unfolding mocus_node_index by auto
next
  fix p ps k a assume "node_parents mocus_store p = Some ps \<and> ps k = Some a"
  then have "(k = 10 \<and> a = 0) \<or> (k = 11 \<and> a = 1) \<or> (k = 12 \<and> a = 2) \<or> (k = 13 \<and> a = 3)
     \<or> (k = 14 \<and> a = 4)"
    using mocus_node_parents by blast
  then show "\<exists>g. gate_at mocus_store a = Some g \<and> index g = k"
    by (auto simp: mocus_store_def mocus_gate_def)
qed

lemma mocus_nnf: "nnf_indexed mocus_store 5"
  unfolding nnf_indexed_def mocus_gate_at
  by (auto simp: mocus_gate_def)

lemma mocus_ranked: "ranked mocus_store mocus_rank"
  unfolding ranked_def mocus_gate_at
  by (auto simp: mocus_gate_def mocus_rank_def split: if_splits)

section \<open>Termination of the expansion loop\<close>

lemma mult_finite_sets:
  assumes fin: "finite P" "finite P'" and g: "g \<in> P" "g \<notin> P'"
    and below: "\<forall>k \<in> P' - P. rank k < rank g"
  shows "(mset_set P', mset_set P) \<in> mult (measure rank)"
proof -
  have P: "mset_set P = mset_set (P \<inter> P') + mset_set (P - P')"
    using fin by (subst mset_set_Union [symmetric]) (auto intro: arg_cong [where f = mset_set])
  have P': "mset_set P' = mset_set (P \<inter> P') + mset_set (P' - P)"
    using fin by (subst mset_set_Union [symmetric]) (auto intro: arg_cong [where f = mset_set])
  from g fin have "mset_set (P - P') \<noteq> {#}"
    by (auto simp: mset_set_empty_iff)
  moreover from g fin below
  have "\<forall>k \<in> set_mset (mset_set (P' - P)). \<exists>j \<in> set_mset (mset_set (P - P')). (k, j) \<in> measure rank"
    by auto
  ultimately have "(mset_set (P \<inter> P') + mset_set (P' - P), mset_set (P \<inter> P') + mset_set (P - P'))
      \<in> mult (measure rank)"
    by (rule one_step_implies_mult)
  with P P' show ?thesis by simp
qed

lemma placeholders_distinct: "distinct (placeholders c)"
  by (simp add: placeholders_def)

lemma expansion_decreases:
  assumes wf: "wf_store h" and nnf: "nnf_indexed h bound" and rk: "ranked h rank"
    and inv: "expansion_inv h bound gates c" and nz: "SpecGetNextGate c \<noteq> 0"
  shows "\<exists>p inter_gate. gates (SpecGetNextGate c) = Some p \<and> gate_at h p = Some inter_gate
      \<and> expansion_inv h bound (gate_args inter_gate ++ gates)
           (expanded_container c h inter_gate (SpecGetNextGate c))
      \<and> SpecGetNextGate c \<notin> set (placeholders (expanded_container c h inter_gate (SpecGetNextGate c)))
      \<and> (mset (placeholders (expanded_container c h inter_gate (SpecGetNextGate c))), mset (placeholders c))
           \<in> mult (measure rank)"
proof -
  let ?g = "SpecGetNextGate c"
  from expansion_step [OF wf nnf inv nz] obtain p inter_gate where
    p: "gates ?g = Some p" and ig: "gate_at h p = Some inter_gate" "index inter_gate = ?g"
    and inv': "expansion_inv h bound (gate_args inter_gate ++ gates) (expanded_container c h inter_gate ?g)"
    and sub: "set (placeholders (expanded_container c h inter_gate ?g))
           \<subseteq> (set (placeholders c) - {?g})
              \<union> {k. k \<noteq> ?g \<and> gate_children inter_gate k \<noteq> None}
              \<union> {k. k = ?g \<and> gate_children inter_gate k \<noteq> None}"
    by blast
  let ?P = "set (placeholders c)" and ?P' = "set (placeholders (expanded_container c h inter_gate ?g))"
  from rk ig have below: "gate_children inter_gate k \<noteq> None \<Longrightarrow> rank k < rank ?g" for k
    unfolding ranked_def by metis
  then have self: "gate_children inter_gate ?g = None"
    by fastforce
  have gP: "?g \<in> ?P" using nz by (rule SpecGetNextGate_placeholder)
  from sub self have gP': "?g \<notin> ?P'" by auto
  from sub below have "\<forall>k \<in> ?P' - ?P. rank k < rank ?g" by auto
  from mult_finite_sets [OF _ _ gP gP' this]
  have "(mset_set ?P', mset_set ?P) \<in> mult (measure rank)" by simp
  then have "(mset (placeholders (expanded_container c h inter_gate ?g)), mset (placeholders c))
      \<in> mult (measure rank)"
    by (simp add: mset_set_set placeholders_distinct)
  with p ig inv' gP' show ?thesis by blast
qed

lemma expand_loop_terminates:
  assumes wf: "wf_store h" and nnf: "nnf_indexed h bound" and rk: "ranked h rank"
    and inv: "expansion_inv h bound gates c"
  shows "\<exists>fuel gates' c' trace'.
       expand_loop fuel ord spec_ops h gates c trace (SpecGetNextGate c) = Some (Inr (gates', c', trace'))
       \<and> SpecGetNextGate c' = 0"
proof -
  have wfR: "wf (inv_image (mult (measure rank)) (\<lambda>c. mset (placeholders c)))"
    by (intro wf_inv_image wf_mult) simp
  from wfR inv show ?thesis
  proof (induction c arbitrary: gates trace rule: wf_induct_rule)
    case (less c)
    show ?case
    proof (cases "SpecGetNextGate c = 0")
      case True
      then have "expand_loop (Suc 0) ord spec_ops h gates c trace (SpecGetNextGate c)
          = Some (Inr (gates, c, trace))"
        by simp
      with True show ?thesis by blast
    next
      case False
      from expansion_decreases [OF wf nnf rk less.prems False] obtain p inter_gate where
        p: "gates (SpecGetNextGate c) = Some p" "gate_at h p = Some inter_gate"
        and inv': "expansion_inv h bound (gate_args inter_gate ++ gates)
           (expanded_container c h inter_gate (SpecGetNextGate c))"
        and dec: "(mset (placeholders (expanded_container c h inter_gate (SpecGetNextGate c))),
                   mset (placeholders c)) \<in> mult (measure rank)"
        by blast
      let ?c = "expanded_container c h inter_gate (SpecGetNextGate c)"
      let ?trace = "trace @ argument_calls ord (index inter_gate) (SpecGetNextGate c)
             @ [ExpandGateCall, MergeCall, GetNextGateCall (SpecGetNextGate ?c)]"
      from dec have "(?c, c) \<in> inv_image (mult (measure rank)) (\<lambda>c. mset (placeholders c))"
        by simp
      from less.IH [OF this inv', where trace = ?trace] obtain fuel gates' c' trace' where
        run: "expand_loop fuel ord spec_ops h (gate_args inter_gate ++ gates) ?c ?trace
                (SpecGetNextGate ?c) = Some (Inr (gates', c', trace'))"
        and z: "SpecGetNextGate c' = 0"
        by blast
      note eq = expand_step_spec_eq [where c = c and gates = gates and g = "SpecGetNextGate c"
        and p = p and h = h and inter_gate = inter_gate, OF p]
      from run False eq
      have "expand_loop (Suc fuel) ord spec_ops h gates c trace (SpecGetNextGate c)
          = Some (Inr (gates', c', trace'))"
        by simp
      with z show ?thesis by blast
    qed
  qed
qed

text \<open>
  C5, as the model has it. For a gate of a well-formed acyclic graph in negation
  normal form, with the container modelled from the spec, the expansion loop of
  \<^verbatim>\<open>AnalyzeModule\<close> ends: with enough fuel it returns, and \<^verbatim>\<open>GetNextGate\<close> is 0 on
  the container it returns. Every round succeeds, takes the popped placeholder
  out of the container and adds placeholders of gate arguments of the popped
  gate only, which have a smaller rank: the placeholders decrease in the
  multiset order of the ranks.
\<close>

theorem expansion_loop_terminates:
  assumes "wf_store h" and "nnf_indexed h (int (length (basic_events graph)))"
    and "ranked h rank" and "gate_at h p = Some gate"
  shows "(\<exists>fuel gates' c' trace'.
            expand_loop fuel ord spec_ops h (gate_args gate)
              (Merge spec_ops (NewCutSetContainer spec_ops (length (basic_events graph)))
                 (ConvertGate spec_ops (NewCutSetContainer spec_ops (length (basic_events graph)))
                    h gate))
              trace
              (GetNextGate spec_ops
                 (Merge spec_ops (NewCutSetContainer spec_ops (length (basic_events graph)))
                    (ConvertGate spec_ops
                       (NewCutSetContainer spec_ops (length (basic_events graph))) h gate)))
            = Some (Inr (gates', c', trace'))
            \<and> GetNextGate spec_ops c' = 0)
       \<and> (\<forall>gates c. expansion_inv h (int (length (basic_events graph))) gates c
              \<and> GetNextGate spec_ops c \<noteq> 0 \<longrightarrow>
            (\<exists>gates' c' calls.
               expand_step ord spec_ops h gates c (GetNextGate spec_ops c)
                 = Inr (gates', c', calls, GetNextGate spec_ops c')
               \<and> expansion_inv h (int (length (basic_events graph))) gates' c'
               \<and> GetNextGate spec_ops c \<notin> set (placeholders c')
               \<and> (mset (placeholders c'), mset (placeholders c)) \<in> mult (measure rank)))"
proof (intro conjI allI impI)
  let ?bound = "int (length (basic_events graph))"
  let ?c0 = "\<lparr>family = [], modules_known = [], gate_bound = ?bound\<rparr>"
  have inv: "expansion_inv h ?bound (gate_args gate) (SpecMerge ?c0 (SpecConvertGate ?c0 h gate))"
    by (rule expansion_inv_init [OF assms(1,2,4)]) simp
  from expand_loop_terminates [OF assms(1,2,3) inv, where trace = trace]
  show "\<exists>fuel gates' c' trace'.
            expand_loop fuel ord spec_ops h (gate_args gate)
              (Merge spec_ops (NewCutSetContainer spec_ops (length (basic_events graph)))
                 (ConvertGate spec_ops (NewCutSetContainer spec_ops (length (basic_events graph)))
                    h gate))
              trace
              (GetNextGate spec_ops
                 (Merge spec_ops (NewCutSetContainer spec_ops (length (basic_events graph)))
                    (ConvertGate spec_ops
                       (NewCutSetContainer spec_ops (length (basic_events graph))) h gate)))
            = Some (Inr (gates', c', trace'))
            \<and> GetNextGate spec_ops c' = 0"
    by simp
next
  fix gates c
  assume a: "expansion_inv h (int (length (basic_events graph))) gates c
              \<and> GetNextGate spec_ops c \<noteq> 0"
  then have inv: "expansion_inv h (int (length (basic_events graph))) gates c"
    and nz: "SpecGetNextGate c \<noteq> 0"
    by simp_all
  from expansion_decreases [OF assms(1,2,3) inv nz] obtain q inter_gate where
    q: "gates (SpecGetNextGate c) = Some q" "gate_at h q = Some inter_gate"
    and inv': "expansion_inv h (int (length (basic_events graph))) (gate_args inter_gate ++ gates)
           (expanded_container c h inter_gate (SpecGetNextGate c))"
    and out: "SpecGetNextGate c \<notin> set (placeholders (expanded_container c h inter_gate (SpecGetNextGate c)))"
    and dec: "(mset (placeholders (expanded_container c h inter_gate (SpecGetNextGate c))),
               mset (placeholders c)) \<in> mult (measure rank)"
    by blast
  note eq = expand_step_spec_eq [where c = c and gates = gates and g = "SpecGetNextGate c"
        and p = q and h = h and inter_gate = inter_gate, OF q]
  from eq inv' dec out
  show "\<exists>gates' c' calls.
               expand_step ord spec_ops h gates c (GetNextGate spec_ops c)
                 = Inr (gates', c', calls, GetNextGate spec_ops c')
               \<and> expansion_inv h (int (length (basic_events graph))) gates' c'
               \<and> GetNextGate spec_ops c \<notin> set (placeholders c')
               \<and> (mset (placeholders c'), mset (placeholders c)) \<in> mult (measure rank)"
    by simp
qed

theorem expansion_loop_terminates_witness:
  "wf_store mocus_store \<and> nnf_indexed mocus_store (int (length (basic_events mocus_graph)))
   \<and> ranked mocus_store mocus_rank \<and> gate_at mocus_store 0 = Some mocus_top
   \<and> (\<exists>fuel gates' c' trace'.
         expand_loop fuel RightToLeft spec_ops mocus_store (gate_args mocus_top)
           (Merge spec_ops (NewCutSetContainer spec_ops (length (basic_events mocus_graph)))
              (ConvertGate spec_ops
                 (NewCutSetContainer spec_ops (length (basic_events mocus_graph)))
                 mocus_store mocus_top))
           []
           (GetNextGate spec_ops
              (Merge spec_ops (NewCutSetContainer spec_ops (length (basic_events mocus_graph)))
                 (ConvertGate spec_ops
                    (NewCutSetContainer spec_ops (length (basic_events mocus_graph)))
                    mocus_store mocus_top)))
         = Some (Inr (gates', c', trace'))
         \<and> GetNextGate spec_ops c' = 0)"
proof -
  have n: "nnf_indexed mocus_store (int (length (basic_events mocus_graph)))"
    using mocus_nnf by (simp add: mocus_graph_def)
  have g: "gate_at mocus_store 0 = Some mocus_top"
    by (simp add: mocus_store_def mocus_top_def)
  from expansion_loop_terminates [OF mocus_wf n mocus_ranked g,
      where trace = "[]" and ord = RightToLeft] mocus_wf n mocus_ranked g
  show ?thesis by blast
qed

text \<open>
  C5 as stated, with a strictly decreasing count of placeholders, fails. The
  container of the module 10 starts with the one cut set \<open>{1, 11, 14}\<close> and the
  one placeholder 11 that is not a module. The first round pops 11 and leaves
  the cut sets \<open>{12, 1, 14}\<close> and \<open>{13, 1, 14}\<close>, with the two placeholders 12
  and 13.
\<close>

theorem placeholder_count_counterexample:
  "placeholders mocus_seed = [11]
   \<and> GetNextGate spec_ops mocus_seed = 11
   \<and> (case expand_step RightToLeft spec_ops mocus_store (gate_args mocus_top) mocus_seed 11 of
        Inl e \<Rightarrow> False
      | Inr (gates', c', calls, next_gate) \<Rightarrow>
          family c' = [[12, 1, 14], [13, 1, 14]] \<and> placeholders c' = [12, 13] \<and> next_gate = 12)
   \<and> (case expand_step LeftToRight spec_ops mocus_store (gate_args mocus_top) mocus_seed 11 of
        Inl e \<Rightarrow> False
      | Inr (gates', c', calls, next_gate) \<Rightarrow>
          family c' = [[12, 1, 14], [13, 1, 14]] \<and> placeholders c' = [12, 13] \<and> next_gate = 12)
   \<and> length [11::int] < length [12::int, 13]"
  by code_simp

section \<open>AnalyzeModule returns\<close>

text \<open>
  More fuel never changes a result, and on an acyclic graph (every gate child
  has a smaller rank than its parent) the recursion over modules is well
  founded, so \<^verbatim>\<open>AnalyzeModule\<close> returns with enough fuel.
\<close>

lemma expand_loop_more_fuel:
  assumes "expand_loop fuel ord ops h gates c tr n = Some r"
  shows "expand_loop (Suc fuel) ord ops h gates c tr n = Some r"
  using assms
proof (induction fuel arbitrary: gates c tr n)
  case 0
  then show ?case by simp
next
  case (Suc fuel)
  show ?case
  proof (cases "n = 0")
    case True
    with Suc.prems show ?thesis by simp
  next
    case False
    show ?thesis
    proof (cases "expand_step ord ops h gates c n")
      case (Inl e)
      with Suc.prems False show ?thesis by simp
    next
      case (Inr x)
      obtain gates' merged calls n' where x: "x = (gates', merged, calls, n')"
        by (cases x) auto
      with Inr Suc.prems False have "expand_loop fuel ord ops h gates' merged (tr @ calls) n' = Some r"
        by simp
      from Suc.IH [OF this] Inr x False show ?thesis
        by simp
    qed
  qed
qed

lemma join_modules_more_fuel:
  assumes "\<And>p r. analyze p = Some r \<Longrightarrow> analyze' p = Some r"
    and "join_modules analyze ops gates ms c tr = Some r"
  shows "join_modules analyze' ops gates ms c tr = Some r"
  using assms(2)
proof (induction ms arbitrary: c tr)
  case Nil
  then show ?case by simp
next
  case (Cons m ms)
  show ?case
  proof (cases "gates m")
    case None
    with Cons.prems show ?thesis by simp
  next
    case (Some p)
    show ?thesis
    proof (cases "analyze p")
      case None
      with Some Cons.prems show ?thesis by simp
    next
      case a: (Some x)
      from assms(1) [OF a] have a': "analyze' p = Some x" .
      show ?thesis
      proof (cases x)
        case (Inl e)
        with Some a Cons.prems have "r = Inl e" by simp
        with Some a' Inl show ?thesis by simp
      next
        case (Inr y)
        obtain sub sub_trace where y: "y = (sub, sub_trace)" by (cases y)
        with Inr Some a Cons.prems
        have "join_modules analyze ops gates ms (JoinModule ops c m sub)
            (tr @ [JoinModuleCall m sub_trace]) = Some r"
          by simp
        from Cons.IH [OF this] Inr y Some a' show ?thesis by simp
      qed
    qed
  qed
qed

lemma finish_module_more_fuel:
  assumes "\<And>p r. analyze p = Some r \<Longrightarrow> analyze' p = Some r"
    and "finish_module analyze ops co gates c tr = Some r"
  shows "finish_module analyze' ops co gates c tr = Some r"
proof -
  let ?c2 = "if \<not> co then Minimize ops (EliminateComplements ops (Minimize ops c))
             else Minimize ops c"
  let ?t2 = "if \<not> co then (tr @ [MinimizeCall]) @ [EliminateComplementsCall, MinimizeCall]
             else tr @ [MinimizeCall]"
  have eq: "finish_module an ops co gates c tr =
     (case join_modules an ops gates (GatherModules ops ?c2) ?c2 (?t2 @ [GatherModulesCall]) of
        None \<Rightarrow> None
      | Some (Inl e) \<Rightarrow> Some (Inl e)
      | Some (Inr (joined, t3)) \<Rightarrow>
          Some (Inr (Minimize ops (EliminateConstantModules ops joined),
                     t3 @ [EliminateConstantModulesCall, MinimizeCall])))" for an
    by (simp add: finish_module_def Let_def)
  from assms(2) obtain x where
    j: "join_modules analyze ops gates (GatherModules ops ?c2) ?c2 (?t2 @ [GatherModulesCall]) = Some x"
    unfolding eq by (auto split: option.splits)
  from join_modules_more_fuel [of analyze analyze', OF assms(1) j]
  have "join_modules analyze' ops gates (GatherModules ops ?c2) ?c2 (?t2 @ [GatherModulesCall]) = Some x" .
  with j assms(2) show ?thesis
    unfolding eq by simp
qed

lemma AnalyzeModule_more_fuel:
  "AnalyzeModule fuel ord ops h graph p = Some r \<Longrightarrow> AnalyzeModule (Suc fuel) ord ops h graph p = Some r"
proof (induction fuel arbitrary: p r)
  case 0
  then show ?case by simp
next
  case (Suc fuel)
  show ?case
  proof (cases "gate_at h p")
    case None
    with Suc.prems show ?thesis by simp
  next
    case gate: (Some gate)
  show ?thesis
  proof (cases "IsModule gate")
    case False
    with gate Suc.prems show ?thesis by simp
  next
    case True
    let ?c0 = "NewCutSetContainer ops (length (basic_events graph))"
    let ?c1 = "Merge ops ?c0 (ConvertGate ops ?c0 h gate)"
    let ?t = "[ConvertGateCall (index gate), MergeCall, GetNextGateCall (GetNextGate ops ?c1)]"
    have eq: "AnalyzeModule (Suc f) ord ops h graph p =
       (case expand_loop (Suc f) ord ops h (gate_args gate) ?c1 ?t (GetNextGate ops ?c1) of
          None \<Rightarrow> None
        | Some (Inl e) \<Rightarrow> Some (Inl e)
        | Some (Inr (gates', after_loop, t1)) \<Rightarrow>
            finish_module (AnalyzeModule f ord ops h graph) ops (coherent graph) gates' after_loop t1)" for f
      using gate True by (simp add: Let_def)
    from Suc.prems obtain x where
      l: "expand_loop (Suc fuel) ord ops h (gate_args gate) ?c1 ?t (GetNextGate ops ?c1) = Some x"
      unfolding eq by (auto split: option.splits)
    from expand_loop_more_fuel [OF l]
    have l': "expand_loop (Suc (Suc fuel)) ord ops h (gate_args gate) ?c1 ?t (GetNextGate ops ?c1) = Some x" .
    show ?thesis
    proof (cases x)
      case (Inl e)
      with l l' Suc.prems show ?thesis unfolding eq by simp
    next
      case (Inr y)
      obtain gates' after_loop t1 where y: "y = (gates', after_loop, t1)" by (cases y) auto
      with Inr l Suc.prems
      have "finish_module (AnalyzeModule fuel ord ops h graph) ops (coherent graph) gates' after_loop t1
          = Some r"
        unfolding eq by simp
      from finish_module_more_fuel [of "AnalyzeModule fuel ord ops h graph"
          "AnalyzeModule (Suc fuel) ord ops h graph", OF Suc.IH this]
      have "finish_module (AnalyzeModule (Suc fuel) ord ops h graph) ops (coherent graph) gates' after_loop t1
          = Some r" .
      with Inr y l' show ?thesis unfolding eq by simp
    qed
  qed
  qed
qed

lemma AnalyzeModule_fuel_mono:
  assumes "fuel \<le> fuel'" and "AnalyzeModule fuel ord ops h graph p = Some r"
  shows "AnalyzeModule fuel' ord ops h graph p = Some r"
  using assms
proof (induction rule: dec_induct)
  case base
  then show ?case .
next
  case (step n)
  from step.IH [OF step.prems] show ?case
    by (rule AnalyzeModule_more_fuel)
qed

lemma expand_loop_fuel_mono:
  assumes "fuel \<le> fuel'" and "expand_loop fuel ord ops h gates c tr n = Some r"
  shows "expand_loop fuel' ord ops h gates c tr n = Some r"
  using assms
proof (induction rule: dec_induct)
  case base
  then show ?case .
next
  case (step n)
  from step.IH [OF step.prems] show ?case
    by (rule expand_loop_more_fuel)
qed


lemma expand_loop_gates_rank:
  assumes wf: "wf_store h" and nnf: "nnf_indexed h bound" and rk: "ranked h rank"
  shows "expand_loop fuel ord spec_ops h gates c tr (SpecGetNextGate c) = Some (Inr (gates', c', tr'))
    \<Longrightarrow> expansion_inv h bound gates c \<Longrightarrow> \<forall>k. gates k \<noteq> None \<longrightarrow> rank k < r
    \<Longrightarrow> expansion_inv h bound gates' c' \<and> (\<forall>k. gates' k \<noteq> None \<longrightarrow> rank k < r)"
proof (induction fuel arbitrary: gates c tr)
  case 0
  then show ?case by simp
next
  case (Suc fuel)
  show ?case
  proof (cases "SpecGetNextGate c = 0")
    case True
    with Suc.prems show ?thesis by simp
  next
    case False
    from expansion_step [OF wf nnf Suc.prems(2) False] obtain p inter_gate where
      st: "gates (SpecGetNextGate c) = Some p" "gate_at h p = Some inter_gate"
        "index inter_gate = SpecGetNextGate c"
        "expansion_inv h bound (gate_args inter_gate ++ gates)
           (expanded_container c h inter_gate (SpecGetNextGate c))"
      by blast
    note eq = expand_step_spec_eq [where c = c and gates = gates and g = "SpecGetNextGate c"
        and p = p and h = h and inter_gate = inter_gate, OF st(1,2)]
    from st(1) Suc.prems(3) have below: "rank (SpecGetNextGate c) < r" by simp
    have "\<forall>k. (gate_args inter_gate ++ gates) k \<noteq> None \<longrightarrow> rank k < r"
    proof (intro allI impI)
      fix k assume "(gate_args inter_gate ++ gates) k \<noteq> None"
      then have "gates k \<noteq> None \<or> gate_children inter_gate k \<noteq> None"
        by (auto simp: map_add_def gate_args_def split: option.splits)
      then show "rank k < r"
      proof
        assume "gates k \<noteq> None"
        with Suc.prems(3) show ?thesis by blast
      next
        assume "gate_children inter_gate k \<noteq> None"
        with rk st(2) have "rank k < rank (index inter_gate)"
          unfolding ranked_def by blast
        with st(3) below show ?thesis by simp
      qed
    qed
    moreover from Suc.prems(1) False eq
    have "expand_loop fuel ord spec_ops h (gate_args inter_gate ++ gates)
        (expanded_container c h inter_gate (SpecGetNextGate c))
        (tr @ argument_calls ord (index inter_gate) (SpecGetNextGate c)
            @ [ExpandGateCall, MergeCall,
               GetNextGateCall (SpecGetNextGate (expanded_container c h inter_gate (SpecGetNextGate c)))])
        (SpecGetNextGate (expanded_container c h inter_gate (SpecGetNextGate c)))
       = Some (Inr (gates', c', tr'))"
      by simp
    ultimately show ?thesis
      using Suc.IH st(4) by blast
  qed
qed

lemma join_modules_returns:
  assumes "\<forall>m \<in> set ms. \<exists>q r. gates m = Some q \<and> analyze q = Some (Inr r)"
  shows "\<exists>r. join_modules analyze ops gates ms c tr = Some (Inr r)"
  using assms
proof (induction ms arbitrary: c tr)
  case Nil
  then show ?case by simp
next
  case (Cons m ms)
  from Cons.prems obtain q sub sub_trace where
    q: "gates m = Some q" "analyze q = Some (Inr (sub, sub_trace))"
    by fastforce
  from Cons.prems have "\<forall>m \<in> set ms. \<exists>q r. gates m = Some q \<and> analyze q = Some (Inr r)"
    by simp
  from Cons.IH [OF this] q show ?case by simp
qed

lemma uniform_fuel:
  assumes "\<forall>m \<in> set ms. \<exists>fuel q r. gates m = Some q
      \<and> AnalyzeModule fuel ord ops h graph q = Some (Inr r)"
  shows "\<exists>fuel. \<forall>m \<in> set ms. \<exists>q r. gates m = Some q
      \<and> AnalyzeModule fuel ord ops h graph q = Some (Inr r)"
  using assms
proof (induction ms)
  case Nil
  then show ?case by simp
next
  case (Cons m ms)
  from Cons.prems obtain f1 q r where
    m: "gates m = Some q" "AnalyzeModule f1 ord ops h graph q = Some (Inr r)"
    by fastforce
  from Cons.prems have "\<forall>m \<in> set ms. \<exists>fuel q r. gates m = Some q
      \<and> AnalyzeModule fuel ord ops h graph q = Some (Inr r)"
    by simp
  from Cons.IH [OF this] obtain f2 where
    f2: "\<forall>m \<in> set ms. \<exists>q r. gates m = Some q \<and> AnalyzeModule f2 ord ops h graph q = Some (Inr r)"
    by blast
  have "\<forall>m' \<in> set (m # ms). \<exists>q r. gates m' = Some q
      \<and> AnalyzeModule (max f1 f2) ord ops h graph q = Some (Inr r)"
  proof
    fix m' assume "m' \<in> set (m # ms)"
    then have "m' = m \<or> m' \<in> set ms" by simp
    then show "\<exists>q r. gates m' = Some q \<and> AnalyzeModule (max f1 f2) ord ops h graph q = Some (Inr r)"
    proof
      assume "m' = m"
      with m AnalyzeModule_fuel_mono [of f1 "max f1 f2", OF _ m(2)] show ?thesis by simp
    next
      assume "m' \<in> set ms"
      with f2 obtain q' r' where
        "gates m' = Some q'" "AnalyzeModule f2 ord ops h graph q' = Some (Inr r')"
        by blast
      with AnalyzeModule_fuel_mono [of f2 "max f1 f2", OF _ this(2)] show ?thesis by simp
    qed
  qed
  then show ?case by blast
qed

lemma AnalyzeModule_returns:
  assumes wf: "wf_store h" and nnf: "nnf_indexed h (int (length (basic_events graph)))"
    and rk: "ranked h rank"
  shows "gate_at h p = Some gate \<Longrightarrow> IsModule gate
    \<Longrightarrow> \<exists>fuel r. AnalyzeModule fuel ord spec_ops h graph p = Some (Inr r)"
proof (induction "rank (index gate)" arbitrary: p gate rule: less_induct)
  case less
  let ?bound = "int (length (basic_events graph))"
  let ?c0 = "\<lparr>family = [], modules_known = [], gate_bound = ?bound\<rparr>"
  let ?c1 = "SpecMerge ?c0 (SpecConvertGate ?c0 h gate)"
  let ?t = "[ConvertGateCall (index gate), MergeCall, GetNextGateCall (SpecGetNextGate ?c1)]"
  have inv: "expansion_inv h ?bound (gate_args gate) ?c1"
    by (rule expansion_inv_init [OF wf nnf less.prems(1)]) simp
  from expand_loop_terminates [OF wf nnf rk inv, where trace = ?t] obtain f1 gates' c' t1 where
    loop: "expand_loop f1 ord spec_ops h (gate_args gate) ?c1 ?t (SpecGetNextGate ?c1)
        = Some (Inr (gates', c', t1))"
    by blast
  have "\<forall>k. gate_args gate k \<noteq> None \<longrightarrow> rank k < rank (index gate)"
    using rk less.prems(1) unfolding ranked_def gate_args_def by blast
  from expand_loop_gates_rank [OF wf nnf rk loop inv this]
  have inv': "expansion_inv h ?bound gates' c'"
    and below: "\<And>k. gates' k \<noteq> None \<Longrightarrow> rank k < rank (index gate)"
    by blast+
  let ?c2 = "if \<not> coherent graph
             then SpecMinimize (SpecEliminateComplements (SpecMinimize c'))
             else SpecMinimize c'"
  let ?t2 = "if \<not> coherent graph
             then (t1 @ [MinimizeCall]) @ [EliminateComplementsCall, MinimizeCall]
             else t1 @ [MinimizeCall]"
  have inv2: "expansion_inv h ?bound gates' ?c2"
    using inv' by (simp add: expansion_inv_Minimize expansion_inv_EliminateComplements)
  have "\<forall>m \<in> set (SpecGatherModules ?c2). \<exists>fuel q r. gates' m = Some q
      \<and> AnalyzeModule fuel ord spec_ops h graph q = Some (Inr r)"
  proof
    fix m assume "m \<in> set (SpecGatherModules ?c2)"
    from gathered_modules [OF wf inv2 this] obtain q g where
      q: "gates' m = Some q" "gate_at h q = Some g" "IsModule g"
      by blast
    from inv' q(1,2) have "index g = m"
      unfolding expansion_inv_def by fastforce
    with below [of m] q(1) have "rank (index g) < rank (index gate)" by simp
    from less.hyps [OF this q(2,3)] q(1)
    show "\<exists>fuel q r. gates' m = Some q \<and> AnalyzeModule fuel ord spec_ops h graph q = Some (Inr r)"
      by blast
  qed
  from uniform_fuel [OF this] obtain f2 where
    f2: "\<forall>m \<in> set (SpecGatherModules ?c2). \<exists>q r. gates' m = Some q
      \<and> AnalyzeModule f2 ord spec_ops h graph q = Some (Inr r)"
    by blast
  let ?n = "max f1 f2"
  have "\<forall>m \<in> set (SpecGatherModules ?c2). \<exists>q r. gates' m = Some q
      \<and> AnalyzeModule ?n ord spec_ops h graph q = Some (Inr r)"
  proof
    fix m assume "m \<in> set (SpecGatherModules ?c2)"
    with f2 obtain q r where "gates' m = Some q" "AnalyzeModule f2 ord spec_ops h graph q = Some (Inr r)"
      by blast
    with AnalyzeModule_fuel_mono [of f2 ?n, OF _ this(2)]
    show "\<exists>q r. gates' m = Some q \<and> AnalyzeModule ?n ord spec_ops h graph q = Some (Inr r)"
      by simp
  qed
  from join_modules_returns [OF this, of spec_ops ?c2 "?t2 @ [GatherModulesCall]"]
  obtain joined t3 where
    j: "join_modules (AnalyzeModule ?n ord spec_ops h graph) spec_ops gates'
          (SpecGatherModules ?c2) ?c2 (?t2 @ [GatherModulesCall]) = Some (Inr (joined, t3))"
    by fastforce
  have fin: "finish_module (AnalyzeModule ?n ord spec_ops h graph) spec_ops (coherent graph) gates' c' t1
      = Some (Inr (SpecMinimize (SpecEliminateConstantModules joined),
                   t3 @ [EliminateConstantModulesCall, MinimizeCall]))"
    using j by (cases "coherent graph") (simp_all add: finish_module_def Let_def)
  from expand_loop_fuel_mono [of f1 "Suc ?n", OF _ loop]
  have loop': "expand_loop (Suc ?n) ord spec_ops h (gate_args gate) ?c1 ?t (SpecGetNextGate ?c1)
        = Some (Inr (gates', c', t1))"
    by simp
  have "AnalyzeModule (Suc ?n) ord spec_ops h graph p
      = Some (Inr (SpecMinimize (SpecEliminateConstantModules joined),
                   t3 @ [EliminateConstantModulesCall, MinimizeCall]))"
    using less.prems loop' fin by (simp add: Let_def)
  then show ?case by blast
qed

text \<open>
  C10. On a well-formed graph in negation normal form, with the container
  modelled from the spec, \<^verbatim>\<open>AnalyzeModule\<close> of a module gate never ends in an
  error, whatever the fuel: every index that \<^verbatim>\<open>GetNextGate\<close> or \<^verbatim>\<open>GatherModules\<close>
  returns is a key of the local map \<^verbatim>\<open>gates\<close>, so no lookup
  \<^verbatim>\<open>gates.find(...)->second\<close> reads the end iterator, the gate found is in the
  store, and the gate found for a module has the module flag that the
  recursive call asserts. When the graph is acyclic, \<^verbatim>\<open>AnalyzeModule\<close> returns a
  container with enough fuel.
\<close>

theorem AnalyzeModule_lookups_succeed:
  assumes "wf_store h" and "nnf_indexed h (int (length (basic_events graph)))"
    and "gate_at h p = Some gate" and "IsModule gate"
  shows "AnalyzeModule fuel ord spec_ops h graph p \<noteq> Some (Inl e)
       \<and> (ranked h rank \<longrightarrow> (\<exists>fuel' r. AnalyzeModule fuel' ord spec_ops h graph p = Some (Inr r)))"
proof
  from AnalyzeModule_no_error [OF assms, where fuel = fuel and ord = ord]
  show "AnalyzeModule fuel ord spec_ops h graph p \<noteq> Some (Inl e)"
    by (auto simp: no_error_def)
next
  show "ranked h rank \<longrightarrow> (\<exists>fuel' r. AnalyzeModule fuel' ord spec_ops h graph p = Some (Inr r))"
  proof
    assume "ranked h rank"
    from AnalyzeModule_returns [OF assms(1,2) this assms(3,4), where ord = ord]
    show "\<exists>fuel' r. AnalyzeModule fuel' ord spec_ops h graph p = Some (Inr r)" .
  qed
qed

theorem AnalyzeModule_lookups_succeed_witness:
  "wf_store mocus_store \<and> nnf_indexed mocus_store (int (length (basic_events mocus_graph)))
   \<and> gate_at mocus_store 0 = Some mocus_top \<and> IsModule mocus_top
   \<and> ranked mocus_store mocus_rank
   \<and> AnalyzeModule 5 RightToLeft spec_ops mocus_store mocus_graph 0 \<noteq> Some (Inl EndIterator)
   \<and> AnalyzeModule 2 LeftToRight spec_ops mocus_store mocus_graph 0 \<noteq> Some (Inl EndIterator)
   \<and> (\<exists>fuel' r. AnalyzeModule fuel' RightToLeft spec_ops mocus_store mocus_graph 0 = Some (Inr r))"
proof -
  have n: "nnf_indexed mocus_store (int (length (basic_events mocus_graph)))"
    using mocus_nnf by (simp add: mocus_graph_def)
  have g: "gate_at mocus_store 0 = Some mocus_top"
    by (simp add: mocus_store_def mocus_top_def)
  have m: "IsModule mocus_top"
    by (simp add: IsModule_def mocus_top_def mocus_gate_def)
  from AnalyzeModule_lookups_succeed [OF mocus_wf n g m,
      where fuel = 5 and ord = RightToLeft and e = EndIterator and rank = mocus_rank]
    AnalyzeModule_lookups_succeed [OF mocus_wf n g m,
      where fuel = 2 and ord = LeftToRight and e = EndIterator and rank = mocus_rank]
    mocus_wf n g m mocus_ranked
  show ?thesis by blast
qed

section \<open>The approximations in closed form\<close>

lemma fold_times: "fold (\<lambda>x p. p * f x) xs (a :: real) = a * prod_list (map f xs)"
  by (induction xs arbitrary: a) (simp_all add: mult.assoc)

lemma fold_plus: "fold (\<lambda>x s. s + f x) xs (a :: real) = a + sum_list (map f xs)"
  by (induction xs arbitrary: a) (simp_all add: add.assoc)

lemma rare_event_scenario:
  "ProbRareEvent (\<lambda>i. if i = 1 then 1 / 10 else 2 / 10) [[1], [2]] = 3 / 10"
  by (simp add: ProbRareEvent_def ProbAnd_def member_prob_def)

lemma mcub_scenario:
  "ProbMcub (\<lambda>i. if i = 1 then 1 / 10 else 2 / 10) [[1], [2]] = 28 / 100"
  by (simp add: ProbMcub_def ProbAnd_def member_prob_def)

text \<open>
  C7. \<^verbatim>\<open>ProbAnd\<close> of a cut set is the product of the probabilities of its
  members, \<^verbatim>\<open>ProbRareEvent\<close> is the sum of \<^verbatim>\<open>ProbAnd\<close> over the cut sets, and
  \<^verbatim>\<open>ProbMcub\<close> is one minus the product over the cut sets of one minus \<^verbatim>\<open>ProbAnd\<close>.
\<close>

theorem probability_approximations:
  "ProbAnd var_probs cut_set = (\<Prod>member\<leftarrow>cut_set. member_prob var_probs member)
   \<and> ProbRareEvent var_probs min_cut_sets = (\<Sum>cut_set\<leftarrow>min_cut_sets. ProbAnd var_probs cut_set)
   \<and> ProbMcub var_probs min_cut_sets
       = 1 - (\<Prod>cut_set\<leftarrow>min_cut_sets. 1 - ProbAnd var_probs cut_set)"
  by (simp add: ProbAnd_def ProbRareEvent_def ProbMcub_def fold_times fold_plus)

end
